theory Spec2Isabelle
  imports Main
begin

section \<open>JavaScript values used by iterSideBySideDiffs.ts\<close>

text \<open>
  A JavaScript string is modelled as the list of its code units, each code unit a
  \<^typ>\<open>char\<close>; \<open>length\<close> is the \<open>.length\<close> of the source, which is what \<open>padEnd\<close>,
  \<open>padStart\<close> and \<open>slice\<close> count. The columns that a string takes on the screen are
  a measure of their own, introduced with the properties. The two non-ASCII literals
  of the source, U+2500 (the dash of the horizontal separator) and U+25A0 (the square
  of the file-name indicator), are one code unit each and are represented by one
  character each.
\<close>

definition DASH :: char where
  "DASH = CHR 0xC4"

definition SQUARE :: char where
  "SQUARE = CHR 0xFE"

text \<open>\<open>s.startsWith(p)\<close>.\<close>

definition startsWith :: "string \<Rightarrow> string \<Rightarrow> bool" where
  "startsWith s p = (take (length p) s = p)"

text \<open>
  \<open>s.padEnd(n)\<close> and \<open>s.padStart(n)\<close> pad with spaces up to length \<open>n\<close>; a string that
  is already as long, or a negative \<open>n\<close>, leaves \<open>s\<close> unchanged. They never truncate.
  \<open>padStartWith\<close> is \<open>s.padStart(n, c)\<close> for a fill string of one code unit.
\<close>

definition padEnd :: "string \<Rightarrow> int \<Rightarrow> string" where
  "padEnd s n = s @ replicate (nat (n - int (length s))) CHR '' ''"

definition padStartWith :: "string \<Rightarrow> int \<Rightarrow> char \<Rightarrow> string" where
  "padStartWith s n c = replicate (nat (n - int (length s))) c @ s"

definition padStart :: "string \<Rightarrow> int \<Rightarrow> string" where
  "padStart s n = padStartWith s n CHR '' ''"

text \<open>
  \<open>s.slice(b, e)\<close>: a negative index counts from the end, both indices are clamped to
  the string, and an empty range gives the empty string. \<open>sliceFrom s b\<close> is \<open>s.slice(b)\<close>.
\<close>

definition relIndex :: "string \<Rightarrow> int \<Rightarrow> nat" where
  "relIndex s i = (if i < 0 then nat (max (int (length s) + i) 0)
                   else nat (min i (int (length s))))"

definition slice :: "string \<Rightarrow> int \<Rightarrow> int \<Rightarrow> string" where
  "slice s b e = take (relIndex s e - relIndex s b) (drop (relIndex s b) s)"

definition sliceFrom :: "string \<Rightarrow> int \<Rightarrow> string" where
  "sliceFrom s b = drop (relIndex s b) s"

text \<open>
  \<open>s.indexOf(p, from)\<close>: the first index at or after \<open>from\<close> (clamped to the string) where
  \<open>p\<close> occurs, or \<open>-1\<close>.
\<close>

fun findSub :: "string \<Rightarrow> string \<Rightarrow> nat option" where
  "findSub p [] = (if p = [] then Some 0 else None)"
| "findSub p (x # xs) =
     (if startsWith (x # xs) p then Some 0 else map_option Suc (findSub p xs))"

definition indexOf :: "string \<Rightarrow> string \<Rightarrow> int \<Rightarrow> int" where
  "indexOf s p from =
     (let f = nat (max 0 (min from (int (length s))))
      in case findSub p (drop f s) of None \<Rightarrow> - 1 | Some i \<Rightarrow> int (f + i))"

text \<open>
  \<open>s.split(c)\<close> for a separator of one code unit: the fields between the separators,
  empty fields kept; the result is never empty.
\<close>

fun split :: "char \<Rightarrow> string \<Rightarrow> string list" where
  "split c [] = [[]]"
| "split c (x # xs) =
     (if x = c then [] # split c xs
      else (case split c xs of [] \<Rightarrow> [[x]] | f # fs \<Rightarrow> (x # f) # fs))"

text \<open>
  A JavaScript number that holds an integer or \<open>NaN\<close>. The source's numbers are
  doubles: integers are exact up to \<open>2^53\<close>, which is where the model and the source
  agree. Beyond it the source rounds what \<open>parseInt\<close> reads, \<open>++\<close> no longer
  advances, and from \<open>10^21\<close> on the number is printed with an exponent, none of which
  \<open>parseInt\<close>, \<open>incr\<close> and \<open>toString\<close> below do; every property that depends on the
  value of a line number states the bound.
\<close>

datatype jsnum = Num int | NaN

fun incr :: "jsnum \<Rightarrow> jsnum" where
  "incr (Num n) = Num (n + 1)"
| "incr NaN = NaN"

text \<open>Decimal digits of a natural number, most significant first.\<close>

fun digits :: "nat \<Rightarrow> string" where
  "digits n =
     (if n < 10 then [char_of (48 + n)]
      else digits (n div 10) @ [char_of (48 + n mod 10)])"

declare digits.simps [simp del]

fun toString :: "jsnum \<Rightarrow> string" where
  "toString (Num n) = (if n < 0 then CHR ''-'' # digits (nat (- n)) else digits (nat n))"
| "toString NaN = ''NaN''"

text \<open>
  \<open>parseInt(s, 10)\<close>: leading white space is skipped, then an optional sign, then the
  longest run of decimal digits; anything after it is ignored, and no digit at all
  gives \<open>NaN\<close>.
\<close>

definition isWhiteSpace :: "char \<Rightarrow> bool" where
  "isWhiteSpace c = (c \<in> set [CHR 0x09, CHR 0x0A, CHR 0x0B, CHR 0x0C, CHR 0x0D, CHR 0x20, CHR 0xA0])"

definition isDigit :: "char \<Rightarrow> bool" where
  "isDigit c = (48 \<le> (of_char c :: nat) \<and> (of_char c :: nat) \<le> 57)"

definition digitsValue :: "string \<Rightarrow> int" where
  "digitsValue ds = foldl (\<lambda>v d. 10 * v + (int (of_char d) - 48)) 0 ds"

definition parseInt :: "string \<Rightarrow> jsnum" where
  "parseInt s =
     (let t = dropWhile isWhiteSpace s;
          neg = startsWith t ''-'';
          u = (if startsWith t ''-'' \<or> startsWith t ''+'' then drop 1 t else t);
          ds = takeWhile isDigit u
      in if ds = [] then NaN
         else Num (if neg then - digitsValue ds else digitsValue ds))"

section \<open>Config and the derived widths\<close>

record Config =
  SCREEN_WIDTH :: int
  LINE_NUMBER_WIDTH :: int
  LINE_PREFIX_WIDTH :: int
  MIN_LINE_WIDTH :: int
  WRAP_LINES :: bool

text \<open>A valid Config, as the interface states it.\<close>

definition validConfig :: "Config \<Rightarrow> bool" where
  "validConfig c =
     (0 < SCREEN_WIDTH c \<and> 0 \<le> LINE_NUMBER_WIDTH c \<and> 0 \<le> LINE_PREFIX_WIDTH c
      \<and> 0 \<le> MIN_LINE_WIDTH c)"

text \<open>\<open>Math.max(Math.floor(SCREEN_WIDTH / 2), MIN_LINE_WIDTH)\<close>.\<close>

definition LINE_WIDTH :: "Config \<Rightarrow> int" where
  "LINE_WIDTH c = max (SCREEN_WIDTH c div 2) (MIN_LINE_WIDTH c)"

text \<open>
  \<open>Math.max(LINE_WIDTH - 1 - LINE_PREFIX_WIDTH - 1 - LINE_NUMBER_WIDTH)\<close>: the source
  calls \<open>Math.max\<close> with this one argument, and the maximum of one number is the number.
\<close>

definition LINE_TEXT_WIDTH :: "Config \<Rightarrow> int" where
  "LINE_TEXT_WIDTH c = LINE_WIDTH c - 1 - LINE_PREFIX_WIDTH c - 1 - LINE_NUMBER_WIDTH c"


section \<open>Theme and the line wrapper\<close>

text \<open>
  A theme colour is a function from strings to strings; the theme is the table of the
  fourteen colours the source destructures.
\<close>

type_synonym ThemeColor = "string \<Rightarrow> string"

record Theme =
  COMMIT_COLOR :: ThemeColor
  COMMIT_SHA_COLOR :: ThemeColor
  COMMIT_AUTHOR_COLOR :: ThemeColor
  COMMIT_DATE_COLOR :: ThemeColor
  BORDER_COLOR :: ThemeColor
  FILE_NAME_COLOR :: ThemeColor
  HUNK_HEADER_COLOR :: ThemeColor
  DELETED_LINE_COLOR :: ThemeColor
  DELETED_LINE_NO_COLOR :: ThemeColor
  INSERTED_LINE_COLOR :: ThemeColor
  INSERTED_LINE_NO_COLOR :: ThemeColor
  UNMODIFIED_LINE_COLOR :: ThemeColor
  UNMODIFIED_LINE_NO_COLOR :: ThemeColor
  MISSING_LINE_COLOR :: ThemeColor

text \<open>
  The theme whose colours add nothing. The lines of a theme whose colours add escape
  sequences are compared with the lines of this one.
\<close>

definition plainTheme :: Theme where
  "plainTheme =
     \<lparr>COMMIT_COLOR = (\<lambda>s. s), COMMIT_SHA_COLOR = (\<lambda>s. s), COMMIT_AUTHOR_COLOR = (\<lambda>s. s),
      COMMIT_DATE_COLOR = (\<lambda>s. s), BORDER_COLOR = (\<lambda>s. s), FILE_NAME_COLOR = (\<lambda>s. s),
      HUNK_HEADER_COLOR = (\<lambda>s. s), DELETED_LINE_COLOR = (\<lambda>s. s),
      DELETED_LINE_NO_COLOR = (\<lambda>s. s), INSERTED_LINE_COLOR = (\<lambda>s. s),
      INSERTED_LINE_NO_COLOR = (\<lambda>s. s), UNMODIFIED_LINE_COLOR = (\<lambda>s. s),
      UNMODIFIED_LINE_NO_COLOR = (\<lambda>s. s), MISSING_LINE_COLOR = (\<lambda>s. s)\<rparr>"

text \<open>
  \<open>wrapLineByWord\<close> is imported from a file that is not part of the sources at hand.
  It is a parameter of the model: a function from the text and the width to the
  segments it yields.
\<close>

type_synonym Wrapper = "string \<Rightarrow> int \<Rightarrow> string list"

definition BLANK_LINE :: "Config \<Rightarrow> string" where
  "BLANK_LINE c = padStart [] (LINE_WIDTH c)"

definition HORIZONTAL_SEPARATOR :: "Config \<Rightarrow> Theme \<Rightarrow> string" where
  "HORIZONTAL_SEPARATOR c t = BORDER_COLOR t (padStartWith [] (SCREEN_WIDTH c) DASH)"

definition fitTextToWidth :: "Config \<Rightarrow> Wrapper \<Rightarrow> string \<Rightarrow> int \<Rightarrow> string list" where
  "fitTextToWidth c W txt width =
     (if WRAP_LINES c then W txt width else [slice txt 0 width])"

section \<open>Commit lines and the file-name banner\<close>

text \<open>\<open>const [x] = s.split(c)\<close>, also with a limit of one field.\<close>

definition firstField :: "char \<Rightarrow> string \<Rightarrow> string" where
  "firstField c s = (case split c s of [] \<Rightarrow> [] | f # _ \<Rightarrow> f)"

definition labelColorOf :: "Theme \<Rightarrow> string \<Rightarrow> ThemeColor option" where
  "labelColorOf t label =
     (if label = ''commit'' then Some (COMMIT_SHA_COLOR t)
      else if label = ''Author:'' then Some (COMMIT_AUTHOR_COLOR t)
      else if label = ''Date:'' then Some (COMMIT_DATE_COLOR t)
      else None)"

definition formatCommitLine :: "Config \<Rightarrow> Theme \<Rightarrow> string \<Rightarrow> string" where
  "formatCommitLine c t line =
     (let label = firstField CHR '' '' line
      in case labelColorOf t label of
           None \<Rightarrow> COMMIT_COLOR t (padEnd line (SCREEN_WIDTH c))
         | Some labelColor \<Rightarrow>
             COMMIT_COLOR t
               (label @ '' '' @ labelColor (sliceFrom line (int (length label) + 1))
                @ padEnd [] (SCREEN_WIDTH c - int (length line))))"

text \<open>
  An error the source throws: a failed \<open>assert.ok\<close>, or a method call on \<open>undefined\<close>.
\<close>

datatype error = AssertionError | TypeError

text \<open>
  A file name is a string or \<open>undefined\<close> (\<open>None\<close>): the binary-files pattern leaves
  the group of a \<open>/dev/null\<close> side undefined. \<open>truthy\<close> is the test of \<open>if (x)\<close> and
  \<open>!x\<close>: \<open>undefined\<close> and the empty string are false.
\<close>

definition truthy :: "string option \<Rightarrow> bool" where
  "truthy x = (case x of None \<Rightarrow> False | Some s \<Rightarrow> s \<noteq> [])"

text \<open>The text that a template literal \<open>`${x}`\<close> inserts for \<open>x\<close>.\<close>

definition templ :: "string option \<Rightarrow> string" where
  "templ x = (case x of None \<Rightarrow> ''undefined'' | Some s \<Rightarrow> s)"

text \<open>
  The lines a generator yields, and the error that ended it if one did. In
  \<open>formatFileName\<close> the separator is yielded before the label is padded, and padding
  an undefined label throws.
\<close>

type_synonym yielded = "string list \<times> error option"

definition fileNameBody :: "Config \<Rightarrow> Theme \<Rightarrow> string \<Rightarrow> string option \<Rightarrow> yielded" where
  "fileNameBody c t indicator label =
     (case label of
        None \<Rightarrow> ([HORIZONTAL_SEPARATOR c t], Some TypeError)
      | Some l \<Rightarrow>
          ([HORIZONTAL_SEPARATOR c t,
            FILE_NAME_COLOR t '' '' @ indicator
              @ FILE_NAME_COLOR t ('' '' @ padEnd l (SCREEN_WIDTH c - 2 - 2)),
            HORIZONTAL_SEPARATOR c t], None))"

definition formatFileName :: "Config \<Rightarrow> Theme \<Rightarrow> string option \<Rightarrow> string option \<Rightarrow> yielded" where
  "formatFileName c t fileNameA fileNameB =
     (if \<not> truthy fileNameA then
        fileNameBody c t (INSERTED_LINE_COLOR t [SQUARE, SQUARE]) fileNameB
      else if \<not> truthy fileNameB then
        fileNameBody c t (DELETED_LINE_COLOR t [SQUARE, SQUARE]) fileNameA
      else if fileNameA = fileNameB then
        fileNameBody c t (DELETED_LINE_COLOR t [SQUARE] @ INSERTED_LINE_COLOR t [SQUARE])
          fileNameA
      else
        fileNameBody c t (DELETED_LINE_COLOR t [SQUARE] @ INSERTED_LINE_COLOR t [SQUARE])
          (Some (FILE_NAME_COLOR t (templ fileNameA @ '' -> '' @ templ fileNameB))))"

section \<open>Hunk rows\<close>

record HunkLineHalfRec =
  number :: string
  prefix :: string
  text' :: string

text \<open>\<open>None\<close> is the source's \<open>null\<close>: the line is missing on that side.\<close>

type_synonym HunkLineHalf = "HunkLineHalfRec option"

definition lineColorForLineHalf :: "Theme \<Rightarrow> HunkLineHalf \<Rightarrow> ThemeColor" where
  "lineColorForLineHalf t lineHalf =
     (case lineHalf of
        None \<Rightarrow> MISSING_LINE_COLOR t
      | Some h \<Rightarrow>
          if prefix h = ''-'' then DELETED_LINE_COLOR t
          else if prefix h = ''+'' then INSERTED_LINE_COLOR t
          else UNMODIFIED_LINE_COLOR t)"

definition lineNoColorForLineHalf :: "Theme \<Rightarrow> HunkLineHalf \<Rightarrow> ThemeColor" where
  "lineNoColorForLineHalf t lineHalf =
     (case lineHalf of
        None \<Rightarrow> MISSING_LINE_COLOR t
      | Some h \<Rightarrow>
          if prefix h = ''-'' then DELETED_LINE_NO_COLOR t
          else if prefix h = ''+'' then INSERTED_LINE_NO_COLOR t
          else UNMODIFIED_LINE_NO_COLOR t)"

definition formatHunkLineHalf ::
  "Config \<Rightarrow> string \<Rightarrow> string \<Rightarrow> string \<Rightarrow> ThemeColor \<Rightarrow> ThemeColor \<Rightarrow> string" where
  "formatHunkLineHalf c lineNo linePrefix lineText lineColor lineNoColor =
     lineNoColor (padStart lineNo (LINE_NUMBER_WIDTH c))
     @ lineColor ('' '' @ padStart linePrefix (LINE_PREFIX_WIDTH c))
     @ lineColor ('' '' @ padEnd lineText (LINE_TEXT_WIDTH c))"

text \<open>
  The loop over the fitted segments: the first carries the line number and the prefix,
  the others carry empty ones.
\<close>

definition formatAndFitHunkLineHalf ::
  "Config \<Rightarrow> Wrapper \<Rightarrow> HunkLineHalf \<Rightarrow> ThemeColor \<Rightarrow> ThemeColor \<Rightarrow> string list" where
  "formatAndFitHunkLineHalf c W lineHalf lineColor lineNoColor =
     (let lineNo = (case lineHalf of None \<Rightarrow> [] | Some h \<Rightarrow> number h);
          linePrefix = (case lineHalf of None \<Rightarrow> [] | Some h \<Rightarrow> prefix h);
          lineText = (case lineHalf of None \<Rightarrow> [] | Some h \<Rightarrow> text' h)
      in case fitTextToWidth c W lineText (LINE_TEXT_WIDTH c) of
           [] \<Rightarrow> []
         | s # ss \<Rightarrow>
             formatHunkLineHalf c lineNo linePrefix s lineColor lineNoColor
             # map (\<lambda>x. formatHunkLineHalf c [] [] x lineColor lineNoColor) ss)"

text \<open>
  The loop of \<open>formatHunkLine\<close>: both lists are walked with one index, and a list that
  has ended contributes its blank line.
\<close>

fun pairLines :: "string \<Rightarrow> string \<Rightarrow> string list \<Rightarrow> string list \<Rightarrow> string list" where
  "pairLines blankA blankB [] [] = []"
| "pairLines blankA blankB (a # as) [] = (a @ blankB) # pairLines blankA blankB as []"
| "pairLines blankA blankB [] (b # bs) = (blankA @ b) # pairLines blankA blankB [] bs"
| "pairLines blankA blankB (a # as) (b # bs) = (a @ b) # pairLines blankA blankB as bs"

definition formatHunkLine ::
  "Config \<Rightarrow> Theme \<Rightarrow> Wrapper \<Rightarrow> HunkLineHalf \<Rightarrow> HunkLineHalf \<Rightarrow> string list" where
  "formatHunkLine c t W lineHalfA lineHalfB =
     (let lineColorA = lineColorForLineHalf t lineHalfA;
          lineNoColorA = lineNoColorForLineHalf t lineHalfA;
          formattedLinesA = formatAndFitHunkLineHalf c W lineHalfA lineColorA lineNoColorA;
          lineColorB = lineColorForLineHalf t lineHalfB;
          lineNoColorB = lineNoColorForLineHalf t lineHalfB;
          formattedLinesB = formatAndFitHunkLineHalf c W lineHalfB lineColorB lineNoColorB
      in pairLines (lineColorA (BLANK_LINE c)) (lineColorB (BLANK_LINE c))
           formattedLinesA formattedLinesB)"

section \<open>The change-block accumulator\<close>

text \<open>The line half built from a raw line and the running counter of its side.\<close>

definition lineHalf :: "jsnum \<Rightarrow> string \<Rightarrow> HunkLineHalfRec" where
  "lineHalf n l = \<lparr>number = toString n, prefix = slice l 0 1, text' = sliceFrom l 1\<rparr>"

text \<open>
  \<open>flushHunkChange\<close> walks \<open>linesA\<close> and \<open>linesB\<close> with two indices that advance together;
  here the lists are consumed from the front. It returns the counters and the
  formatted lines; it does not empty the buffers.
\<close>

fun flushHunkChange ::
  "Config \<Rightarrow> Theme \<Rightarrow> Wrapper \<Rightarrow> string list \<Rightarrow> string list \<Rightarrow> jsnum \<Rightarrow> jsnum \<Rightarrow> string list
   \<Rightarrow> jsnum \<times> jsnum \<times> string list" where
  "flushHunkChange c t W [] [] lineNoA lineNoB formattedLines =
     (lineNoA, lineNoB, formattedLines)"
| "flushHunkChange c t W (a # linesA) [] lineNoA lineNoB formattedLines =
     flushHunkChange c t W linesA [] (incr lineNoA) lineNoB
       (formattedLines @ formatHunkLine c t W (Some (lineHalf lineNoA a)) None)"
| "flushHunkChange c t W [] (b # linesB) lineNoA lineNoB formattedLines =
     flushHunkChange c t W [] linesB lineNoA (incr lineNoB)
       (formattedLines @ formatHunkLine c t W None (Some (lineHalf lineNoB b)))"
| "flushHunkChange c t W (a # linesA) (b # linesB) lineNoA lineNoB formattedLines =
     flushHunkChange c t W linesA linesB (incr lineNoA) (incr lineNoB)
       (formattedLines
        @ formatHunkLine c t W (Some (lineHalf lineNoA a)) (Some (lineHalf lineNoB b)))"

text \<open>
  The loop over the raw lines of the hunk, with the buffers, the counters and the
  formatted lines as its state, and the final flush after it.
\<close>

fun hunkLoop ::
  "Config \<Rightarrow> Theme \<Rightarrow> Wrapper \<Rightarrow> string option \<Rightarrow> string option \<Rightarrow> string list
   \<Rightarrow> string list \<Rightarrow> string list \<Rightarrow> jsnum \<Rightarrow> jsnum \<Rightarrow> string list \<Rightarrow> string list" where
  "hunkLoop c t W fileNameA fileNameB [] linesA linesB lineNoA lineNoB formattedLines =
     (case flushHunkChange c t W linesA linesB lineNoA lineNoB formattedLines of
        (_, _, out) \<Rightarrow> out)"
| "hunkLoop c t W fileNameA fileNameB (line # hunkLines) linesA linesB lineNoA lineNoB
       formattedLines =
     (if startsWith line ''-'' then
        hunkLoop c t W fileNameA fileNameB hunkLines (linesA @ [line]) linesB lineNoA lineNoB
          formattedLines
      else if startsWith line ''+'' then
        hunkLoop c t W fileNameA fileNameB hunkLines linesA (linesB @ [line]) lineNoA lineNoB
          formattedLines
      else
        (case flushHunkChange c t W linesA linesB lineNoA lineNoB formattedLines of
           (lineNoA', lineNoB', out) \<Rightarrow>
             hunkLoop c t W fileNameA fileNameB hunkLines
               (if truthy fileNameA then [line] else [])
               (if truthy fileNameB then [line] else [])
               lineNoA' lineNoB' out))"

definition formatHunkSideBySide ::
  "Config \<Rightarrow> Theme \<Rightarrow> Wrapper \<Rightarrow> string \<Rightarrow> string list \<Rightarrow> jsnum \<Rightarrow> jsnum
   \<Rightarrow> string option \<Rightarrow> string option \<Rightarrow> string list" where
  "formatHunkSideBySide c t W hunkHeaderLine hunkLines lineNoA lineNoB fileNameA fileNameB =
     hunkLoop c t W fileNameA fileNameB hunkLines [] [] lineNoA lineNoB
       (map (\<lambda>line. HUNK_HEADER_COLOR t (padEnd line (SCREEN_WIDTH c)))
          (fitTextToWidth c W hunkHeaderLine (SCREEN_WIDTH c)))"

section \<open>The file-header tracker\<close>

text \<open>
  The pattern
  \<^verbatim>\<open>/^Binary files (?:a\/(.*)|\/dev\/null) and (?:b\/(.*)|\/dev\/null) differ$/\<close>,
  matched by backtracking. A dot matches every code unit but a line terminator. The
  result is \<open>None\<close> when the line does not match, and otherwise the two groups, each
  \<open>None\<close> (undefined) on the \<open>/dev/null\<close> side of its alternative.
\<close>

definition isLineTerminator :: "char \<Rightarrow> bool" where
  "isLineTerminator c = (c = CHR 0x0A \<or> c = CHR 0x0D)"

definition endsWith :: "string \<Rightarrow> string \<Rightarrow> bool" where
  "endsWith s p = (length p \<le> length s \<and> drop (length s - length p) s = p)"

text \<open>
  \<^verbatim>\<open>(?:b\/(.*)|\/dev\/null) differ$\<close>: after \<open>b/\<close> the greedy group gives back code
  units until the rest of the line is \<open> differ\<close>.
\<close>

definition matchSideB :: "string \<Rightarrow> string option option" where
  "matchSideB u =
     (if startsWith u ''b/'' then
        (let v = drop 2 u; g = take (length v - 7) v
         in if endsWith v '' differ'' \<and> list_all (\<lambda>x. \<not> isLineTerminator x) g
            then Some (Some g) else None)
      else if u = ''/dev/null differ'' then Some None
      else None)"

definition matchAnd :: "string \<Rightarrow> string option option" where
  "matchAnd s = (if startsWith s '' and '' then matchSideB (drop 5 s) else None)"

text \<open>
  The first group is greedy: it is tried from its longest extent (up to the first line
  terminator) downwards, and the first extent after which the rest of the pattern
  matches is taken.
\<close>

definition BINARY_FILES_DIFF_REGEX :: "string \<Rightarrow> (string option \<times> string option) option" where
  "BINARY_FILES_DIFF_REGEX line =
     (if \<not> startsWith line ''Binary files '' then None
      else
        (let r = drop 13 line
         in if startsWith r ''a/'' then
              (let r1 = drop 2 r;
                   m = length (takeWhile (\<lambda>x. \<not> isLineTerminator x) r1)
               in case List.find (\<lambda>k. matchAnd (drop k r1) \<noteq> None) (rev [0..<Suc m]) of
                    None \<Rightarrow> None
                  | Some k \<Rightarrow>
                      (case matchAnd (drop k r1) of
                         None \<Rightarrow> None
                       | Some g2 \<Rightarrow> Some (Some (take k r1), g2)))
            else if startsWith r ''/dev/null'' then
              (case matchAnd (drop 9 r) of
                 None \<Rightarrow> None
               | Some g2 \<Rightarrow> Some (None, g2))
            else None))"

section \<open>The state machine\<close>

datatype ParserState = Commit | Diff | Hunk

record State =
  state :: ParserState
  fileNameA :: "string option"
  fileNameB :: "string option"
  startA :: jsnum
  startB :: jsnum
  hunkHeaderLine :: string
  hunkLines :: "string list"

definition initialState :: State where
  "initialState =
     \<lparr>state = Commit, fileNameA = Some [], fileNameB = Some [],
      startA = Num (- 1), startB = Num (- 1), hunkHeaderLine = [], hunkLines = []\<rparr>"

definition yieldFileName :: "Config \<Rightarrow> Theme \<Rightarrow> State \<Rightarrow> yielded" where
  "yieldFileName c t st = formatFileName c t (fileNameA st) (fileNameB st)"

text \<open>\<open>yieldHunk\<close> yields the formatted hunk and then empties \<open>hunkLines\<close>.\<close>

definition yieldHunk :: "Config \<Rightarrow> Theme \<Rightarrow> Wrapper \<Rightarrow> State \<Rightarrow> string list \<times> State" where
  "yieldHunk c t W st =
     (formatHunkSideBySide c t W (hunkHeaderLine st) (hunkLines st) (startA st) (startB st)
        (fileNameA st) (fileNameB st),
      st\<lparr>hunkLines := []\<rparr>)"

text \<open>
  The flush that the \<open>diff --git\<close> line, the hunk header and the end of the stream share:
  the banner in state \<open>diff\<close>, the hunk in state \<open>hunk\<close>. The result is the yielded
  lines and either the error that ended the stream or the state.
\<close>

definition flushPending ::
  "Config \<Rightarrow> Theme \<Rightarrow> Wrapper \<Rightarrow> State \<Rightarrow> string list \<times> (error + State)" where
  "flushPending c t W st =
     (case state st of
        Commit \<Rightarrow> ([], Inr st)
      | Diff \<Rightarrow>
          (case yieldFileName c t st of
             (ys, Some e) \<Rightarrow> (ys, Inl e)
           | (ys, None) \<Rightarrow> (ys, Inr st))
      | Hunk \<Rightarrow> (case yieldHunk c t W st of (ys, st') \<Rightarrow> (ys, Inr st')))"

text \<open>
  The flush of the \<open>commit\<close> line: as above, and in state \<open>hunk\<close> the horizontal
  separator after the hunk.
\<close>

definition flushForCommit ::
  "Config \<Rightarrow> Theme \<Rightarrow> Wrapper \<Rightarrow> State \<Rightarrow> string list \<times> (error + State)" where
  "flushForCommit c t W st =
     (case state st of
        Commit \<Rightarrow> ([], Inr st)
      | Diff \<Rightarrow>
          (case yieldFileName c t st of
             (ys, Some e) \<Rightarrow> (ys, Inl e)
           | (ys, None) \<Rightarrow> (ys, Inr st))
      | Hunk \<Rightarrow>
          (case yieldHunk c t W st of
             (ys, st') \<Rightarrow> (ys @ [HORIZONTAL_SEPARATOR c t], Inr st')))"

text \<open>
  The parsing of a hunk header, in the order of the source: both \<open>indexOf\<close> calls, the
  two assertions on them, the slice and its split into fields (calling \<open>split\<close> on a
  second field that does not exist throws), and the assertions on the signs. The start
  values are whatever \<open>parseInt\<close> returns.
\<close>

definition parseHunkHeader :: "string \<Rightarrow> error + jsnum \<times> jsnum" where
  "parseHunkHeader line =
     (let hunkHeaderStart = indexOf line ''@@ '' 0;
          hunkHeaderEnd = indexOf line '' @@'' (hunkHeaderStart + 1)
      in if \<not> 0 \<le> hunkHeaderStart then Inl AssertionError
         else if \<not> hunkHeaderStart < hunkHeaderEnd then Inl AssertionError
         else
           (case split CHR '' '' (slice line (hunkHeaderStart + 3) hunkHeaderEnd) of
              [] \<Rightarrow> Inl TypeError
            | [aHeader] \<Rightarrow> Inl TypeError
            | aHeader # bHeader # _ \<Rightarrow>
                (let startAString = firstField CHR '','' aHeader;
                     startBString = firstField CHR '','' bHeader
                 in if \<not> startsWith startAString ''-'' then Inl AssertionError
                    else if \<not> startsWith startBString ''+'' then Inl AssertionError
                    else Inr (parseInt (sliceFrom startAString 1),
                              parseInt (sliceFrom startBString 1)))))"

text \<open>The \<open>switch\<close> on the state, for a line that is not a hunk header.\<close>

definition trackFileHeader :: "State \<Rightarrow> string \<Rightarrow> State" where
  "trackFileHeader st line =
     (if startsWith line ''--- a/'' then st\<lparr>fileNameA := Some (sliceFrom line 6)\<rparr>
      else if startsWith line ''+++ b/'' then st\<lparr>fileNameB := Some (sliceFrom line 6)\<rparr>
      else if startsWith line ''rename from '' then st\<lparr>fileNameA := Some (sliceFrom line 12)\<rparr>
      else if startsWith line ''rename to '' then st\<lparr>fileNameB := Some (sliceFrom line 10)\<rparr>
      else if startsWith line ''Binary files'' then
        (case BINARY_FILES_DIFF_REGEX line of
           None \<Rightarrow> st
         | Some (a, b) \<Rightarrow> st\<lparr>fileNameA := a, fileNameB := b\<rparr>)
      else st)"

definition handleState ::
  "Config \<Rightarrow> Theme \<Rightarrow> State \<Rightarrow> string \<Rightarrow> string list \<times> State" where
  "handleState c t st line =
     (case state st of
        Commit \<Rightarrow> ([formatCommitLine c t line], st)
      | Diff \<Rightarrow> ([], trackFileHeader st line)
      | Hunk \<Rightarrow> ([], st\<lparr>hunkLines := hunkLines st @ [line]\<rparr>))"

text \<open>
  One iteration of the \<open>for await\<close> loop: the lines it yields, and the error that ends
  the stream or the state for the next line.
\<close>

definition step ::
  "Config \<Rightarrow> Theme \<Rightarrow> Wrapper \<Rightarrow> State \<Rightarrow> string \<Rightarrow> string list \<times> (error + State)" where
  "step c t W st line =
     (if startsWith line ''commit '' then
        (case flushForCommit c t W st of
           (ys, Inl e) \<Rightarrow> (ys, Inl e)
         | (ys, Inr st') \<Rightarrow>
             (case handleState c t (st'\<lparr>state := Commit\<rparr>) line of
                (zs, st'') \<Rightarrow> (ys @ zs, Inr st'')))
      else if startsWith line ''diff --git'' then
        (case flushPending c t W st of
           (ys, Inl e) \<Rightarrow> (ys, Inl e)
         | (ys, Inr st') \<Rightarrow>
             (case handleState c t
                     (st'\<lparr>state := Diff, fileNameA := Some [], fileNameB := Some []\<rparr>) line of
                (zs, st'') \<Rightarrow> (ys @ zs, Inr st'')))
      else if startsWith line ''@@'' then
        (case flushPending c t W st of
           (ys, Inl e) \<Rightarrow> (ys, Inl e)
         | (ys, Inr st') \<Rightarrow>
             (case parseHunkHeader line of
                Inl e \<Rightarrow> (ys, Inl e)
              | Inr (a, b) \<Rightarrow>
                  (ys, Inr (st'\<lparr>hunkHeaderLine := line, startA := a, startB := b,
                                state := Hunk\<rparr>))))
      else
        (case handleState c t st line of (zs, st') \<Rightarrow> (zs, Inr st')))"

text \<open>The loop over the input lines; it stops at the first error.\<close>

fun feed ::
  "Config \<Rightarrow> Theme \<Rightarrow> Wrapper \<Rightarrow> State \<Rightarrow> string list \<Rightarrow> string list \<times> (error + State)" where
  "feed c t W st [] = ([], Inr st)"
| "feed c t W st (line # lines) =
     (case step c t W st line of
        (ys, Inl e) \<Rightarrow> (ys, Inl e)
      | (ys, Inr st') \<Rightarrow> (case feed c t W st' lines of (zs, r) \<Rightarrow> (ys @ zs, r)))"

text \<open>
  The generator that \<open>iterSideBySideDiff\<close> returns, run on a finite input: every run
  starts from the initial state, consumes the lines and flushes at the end of the
  stream. The result is the lines yielded, in order, and the error that ended the
  stream if one did.
\<close>

definition iterSideBySideDiff :: "Config \<Rightarrow> Theme \<Rightarrow> Wrapper \<Rightarrow> string list \<Rightarrow> yielded" where
  "iterSideBySideDiff c t W lines =
     (case feed c t W initialState lines of
        (ys, Inl e) \<Rightarrow> (ys, Some e)
      | (ys, Inr st) \<Rightarrow>
          (case flushPending c t W st of
             (zs, Inl e) \<Rightarrow> (ys @ zs, Some e)
           | (zs, Inr _) \<Rightarrow> (ys @ zs, None)))"

section \<open>Notions used to state the properties\<close>

text \<open>
  The accumulator as the specification words it: on a context line the buffers are
  flushed as a change block, then the context line is flushed at once as a block of
  its own on both sides, whatever the file names are.
\<close>

fun specAccumulate ::
  "Config \<Rightarrow> Theme \<Rightarrow> Wrapper \<Rightarrow> string list \<Rightarrow> string list \<Rightarrow> string list
   \<Rightarrow> jsnum \<Rightarrow> jsnum \<Rightarrow> string list \<Rightarrow> string list" where
  "specAccumulate c t W [] bufferA bufferB counterA counterB rows =
     (case flushHunkChange c t W bufferA bufferB counterA counterB rows of
        (_, _, out) \<Rightarrow> out)"
| "specAccumulate c t W (line # rest) bufferA bufferB counterA counterB rows =
     (if startsWith line ''-'' then
        specAccumulate c t W rest (bufferA @ [line]) bufferB counterA counterB rows
      else if startsWith line ''+'' then
        specAccumulate c t W rest bufferA (bufferB @ [line]) counterA counterB rows
      else
        (case flushHunkChange c t W bufferA bufferB counterA counterB rows of
           (counterA1, counterB1, rows1) \<Rightarrow>
             (case flushHunkChange c t W [line] [line] counterA1 counterB1 rows1 of
                (counterA2, counterB2, rows2) \<Rightarrow>
                  specAccumulate c t W rest [] [] counterA2 counterB2 rows2)))"

definition specFormatHunkSideBySide ::
  "Config \<Rightarrow> Theme \<Rightarrow> Wrapper \<Rightarrow> string \<Rightarrow> string list \<Rightarrow> jsnum \<Rightarrow> jsnum \<Rightarrow> string list" where
  "specFormatHunkSideBySide c t W headerLine rawLines lineNoA lineNoB =
     specAccumulate c t W rawLines [] [] lineNoA lineNoB
       (map (\<lambda>line. HUNK_HEADER_COLOR t (padEnd line (SCREEN_WIDTH c)))
          (fitTextToWidth c W headerLine (SCREEN_WIDTH c)))"

text \<open>
  The rows of a hunk before they are formatted: \<open>flushRows\<close> and \<open>rowsLoop\<close> are
  \<open>flushHunkChange\<close> and \<open>hunkLoop\<close> with the pair of line halves recorded where the
  source pushes \<open>formatHunkLine(lineA, lineB)\<close>.
\<close>

type_synonym row = "HunkLineHalf \<times> HunkLineHalf"

fun flushRows ::
  "string list \<Rightarrow> string list \<Rightarrow> jsnum \<Rightarrow> jsnum \<Rightarrow> row list \<Rightarrow> jsnum \<times> jsnum \<times> row list" where
  "flushRows [] [] lineNoA lineNoB rows = (lineNoA, lineNoB, rows)"
| "flushRows (a # linesA) [] lineNoA lineNoB rows =
     flushRows linesA [] (incr lineNoA) lineNoB (rows @ [(Some (lineHalf lineNoA a), None)])"
| "flushRows [] (b # linesB) lineNoA lineNoB rows =
     flushRows [] linesB lineNoA (incr lineNoB) (rows @ [(None, Some (lineHalf lineNoB b))])"
| "flushRows (a # linesA) (b # linesB) lineNoA lineNoB rows =
     flushRows linesA linesB (incr lineNoA) (incr lineNoB)
       (rows @ [(Some (lineHalf lineNoA a), Some (lineHalf lineNoB b))])"

fun rowsLoop ::
  "string option \<Rightarrow> string option \<Rightarrow> string list \<Rightarrow> string list \<Rightarrow> string list
   \<Rightarrow> jsnum \<Rightarrow> jsnum \<Rightarrow> row list \<Rightarrow> row list" where
  "rowsLoop nameA nameB [] linesA linesB lineNoA lineNoB rows =
     (case flushRows linesA linesB lineNoA lineNoB rows of (_, _, out) \<Rightarrow> out)"
| "rowsLoop nameA nameB (line # rawLines) linesA linesB lineNoA lineNoB rows =
     (if startsWith line ''-'' then
        rowsLoop nameA nameB rawLines (linesA @ [line]) linesB lineNoA lineNoB rows
      else if startsWith line ''+'' then
        rowsLoop nameA nameB rawLines linesA (linesB @ [line]) lineNoA lineNoB rows
      else
        (case flushRows linesA linesB lineNoA lineNoB rows of
           (lineNoA', lineNoB', out) \<Rightarrow>
             rowsLoop nameA nameB rawLines
               (if truthy nameA then [line] else [])
               (if truthy nameB then [line] else [])
               lineNoA' lineNoB' out))"

definition hunkRows ::
  "string list \<Rightarrow> jsnum \<Rightarrow> jsnum \<Rightarrow> string option \<Rightarrow> string option \<Rightarrow> row list" where
  "hunkRows rawLines lineNoA lineNoB nameA nameB =
     rowsLoop nameA nameB rawLines [] [] lineNoA lineNoB []"

text \<open>The formatted lines of a list of rows.\<close>

abbreviation (input) fmtRows :: "Config \<Rightarrow> Theme \<Rightarrow> Wrapper \<Rightarrow> row list \<Rightarrow> string list" where
  "fmtRows c t W rows \<equiv> concat (map (\<lambda>(x, y). formatHunkLine c t W x y) rows)"

text \<open>The line numbers of the rows that are not missing, on the left and on the right.\<close>

definition leftNumbers :: "row list \<Rightarrow> string list" where
  "leftNumbers rows = map number (List.map_filter fst rows)"

definition rightNumbers :: "row list \<Rightarrow> string list" where
  "rightNumbers rows = map number (List.map_filter snd rows)"

text \<open>The numbers \<open>start, start + 1, \<dots>\<close> as the source prints them, \<open>n\<close> of them.\<close>

definition numbersFrom :: "int \<Rightarrow> nat \<Rightarrow> string list" where
  "numbersFrom start n = map (\<lambda>i. toString (Num (start + int i))) [0..<n]"

text \<open>
  The number of raw lines that a side consumes: its own changed lines, and the context
  lines when its file name is not empty.
\<close>

definition consumedA :: "string option \<Rightarrow> string list \<Rightarrow> nat" where
  "consumedA nameA rawLines =
     length (filter (\<lambda>l. startsWith l ''-'' \<or> (\<not> startsWith l ''+'' \<and> truthy nameA)) rawLines)"

definition consumedB :: "string option \<Rightarrow> string list \<Rightarrow> nat" where
  "consumedB nameB rawLines =
     length (filter (\<lambda>l. \<not> startsWith l ''-'' \<and> (startsWith l ''+'' \<or> truthy nameB)) rawLines)"

text \<open>
  What a row shows. \<open>halfNumber\<close>, \<open>halfPrefix\<close> and \<open>halfText\<close> are the source's
  \<open>lineHalf?.number ?? ''\<close> and its like. \<open>shownColumns\<close> spells out the three columns
  of one line of a half: the number right-aligned to \<open>LINE_NUMBER_WIDTH\<close> in the
  line-number colour of the half, then the prefix right-aligned to \<open>LINE_PREFIX_WIDTH\<close>
  and the segment of the text padded to \<open>LINE_TEXT_WIDTH\<close>, each after a space, in the
  line colour of the half. In \<open>shownHalf\<close> the first segment has the number and the
  prefix, the others have empty ones; \<open>shownRow\<close> puts the lines of the two halves
  side by side, with a blank half where one side has ended.
\<close>

definition halfNumber :: "HunkLineHalf \<Rightarrow> string" where
  "halfNumber h = (case h of None \<Rightarrow> [] | Some r \<Rightarrow> number r)"

definition halfPrefix :: "HunkLineHalf \<Rightarrow> string" where
  "halfPrefix h = (case h of None \<Rightarrow> [] | Some r \<Rightarrow> prefix r)"

definition halfText :: "HunkLineHalf \<Rightarrow> string" where
  "halfText h = (case h of None \<Rightarrow> [] | Some r \<Rightarrow> text' r)"

definition shownColumns ::
  "Config \<Rightarrow> Theme \<Rightarrow> HunkLineHalf \<Rightarrow> string \<Rightarrow> string \<Rightarrow> string \<Rightarrow> string" where
  "shownColumns c t h no pre seg =
     lineNoColorForLineHalf t h (padStart no (LINE_NUMBER_WIDTH c))
     @ lineColorForLineHalf t h ('' '' @ padStart pre (LINE_PREFIX_WIDTH c))
     @ lineColorForLineHalf t h ('' '' @ padEnd seg (LINE_TEXT_WIDTH c))"

definition shownHalf :: "Config \<Rightarrow> Theme \<Rightarrow> Wrapper \<Rightarrow> HunkLineHalf \<Rightarrow> string list" where
  "shownHalf c t W h =
     (case fitTextToWidth c W (halfText h) (LINE_TEXT_WIDTH c) of
        [] \<Rightarrow> []
      | s # ss \<Rightarrow>
          shownColumns c t h (halfNumber h) (halfPrefix h) s
          # map (shownColumns c t h [] []) ss)"

definition shownRow :: "Config \<Rightarrow> Theme \<Rightarrow> Wrapper \<Rightarrow> row \<Rightarrow> string list" where
  "shownRow c t W r =
     pairLines (lineColorForLineHalf t (fst r) (BLANK_LINE c))
       (lineColorForLineHalf t (snd r) (BLANK_LINE c))
       (shownHalf c t W (fst r)) (shownHalf c t W (snd r))"

text \<open>
  The raw lines that the halves of the rows were cut from (the prefix and the text put
  together again), on the left and on the right.
\<close>

definition leftLines :: "row list \<Rightarrow> string list" where
  "leftLines rows = map (\<lambda>h. prefix h @ text' h) (List.map_filter fst rows)"

definition rightLines :: "row list \<Rightarrow> string list" where
  "rightLines rows = map (\<lambda>h. prefix h @ text' h) (List.map_filter snd rows)"

text \<open>
  The raw lines that a side consumes, in order: its own changed lines, and the context
  lines when its file name is not empty.
\<close>

definition linesOfA :: "string option \<Rightarrow> string list \<Rightarrow> string list" where
  "linesOfA nameA rawLines =
     filter (\<lambda>l. startsWith l ''-'' \<or> (\<not> startsWith l ''+'' \<and> truthy nameA)) rawLines"

definition linesOfB :: "string option \<Rightarrow> string list \<Rightarrow> string list" where
  "linesOfB nameB rawLines =
     filter (\<lambda>l. \<not> startsWith l ''-'' \<and> (startsWith l ''+'' \<or> truthy nameB)) rawLines"

text \<open>The lines of the hunk that is pending in a state.\<close>

abbreviation (input) pendingHunk :: "Config \<Rightarrow> Theme \<Rightarrow> Wrapper \<Rightarrow> State \<Rightarrow> string list" where
  "pendingHunk c t W st \<equiv>
     formatHunkSideBySide c t W (hunkHeaderLine st) (hunkLines st) (startA st) (startB st)
       (fileNameA st) (fileNameB st)"

text \<open>Every line of a list has at least the width of the two columns of the screen.\<close>

abbreviation (input) wide :: "Config \<Rightarrow> string list \<Rightarrow> bool" where
  "wide c ls \<equiv> \<forall>l \<in> set ls. 2 * (SCREEN_WIDTH c div 2) \<le> int (length l)"

text \<open>The lines that the state machine treats as transitions.\<close>

definition isTransition :: "string \<Rightarrow> bool" where
  "isTransition line =
     (startsWith line ''commit '' \<or> startsWith line ''diff --git'' \<or> startsWith line ''@@'')"

text \<open>
  The shape of a hunk header that the source checks: \<open>@@ \<close> occurs, \<open> @@\<close> occurs after
  it, and of the fields between them, separated by spaces, the first starts with \<open>-\<close>
  and the second with \<open>+\<close>.
\<close>

definition hunkHeaderShape :: "string \<Rightarrow> bool" where
  "hunkHeaderShape line =
     (let i = indexOf line ''@@ '' 0; j = indexOf line '' @@'' (i + 1)
      in 0 \<le> i \<and> i < j \<and>
         (case split CHR '' '' (slice line (i + 3) j) of
            aHeader # bHeader # _ \<Rightarrow> startsWith aHeader ''-'' \<and> startsWith bHeader ''+''
          | _ \<Rightarrow> False))"

text \<open>
  The conditions under which everything fits its column. The Config: the screen has
  an even width of at least 8, each half is \<open>SCREEN_WIDTH / 2\<close> wide, and the line
  number (at least one digit), the prefix (at least one character) and the two
  separating spaces fit in a half.
\<close>

definition fitConfig :: "Config \<Rightarrow> bool" where
  "fitConfig c =
     (8 \<le> SCREEN_WIDTH c \<and> even (SCREEN_WIDTH c) \<and> MIN_LINE_WIDTH c \<le> SCREEN_WIDTH c div 2
      \<and> 1 \<le> LINE_NUMBER_WIDTH c \<and> 1 \<le> LINE_PREFIX_WIDTH c
      \<and> LINE_NUMBER_WIDTH c + LINE_PREFIX_WIDTH c + 2 \<le> SCREEN_WIDTH c div 2)"

text \<open>
  The wrapper: when lines are wrapped, no segment is longer than the width asked for
  (a width that is not negative).
\<close>

definition segmentsFit :: "Config \<Rightarrow> Wrapper \<Rightarrow> bool" where
  "segmentsFit c W =
     (WRAP_LINES c \<longrightarrow>
        (\<forall>txt width. 0 \<le> width \<longrightarrow> (\<forall>seg \<in> set (W txt width). int (length seg) \<le> width)))"

text \<open>
  The input line \<open>line\<close>, met in state \<open>st\<close> with \<open>n\<close> lines after it: a \<open>commit\<close> line
  and a line shown in the Commit state have at most \<open>SCREEN_WIDTH\<close> characters, and
  the latter is not a label without anything after it; a line read in the Diff state
  has at most \<open>SCREEN_WIDTH / 2\<close> characters; the start values of a hunk header that
  parses are integers from 0 on such that the numbers of the \<open>n\<close> lines after it
  have at most \<open>LINE_NUMBER_WIDTH\<close> digits and stay in the range where the source's
  numbers are exact.
\<close>

definition startFits :: "Config \<Rightarrow> nat \<Rightarrow> jsnum \<Rightarrow> bool" where
  "startFits c n x =
     (case x of
        Num a \<Rightarrow>
          0 \<le> a \<and> a + int n \<le> 10 ^ nat (LINE_NUMBER_WIDTH c) \<and> a + int n \<le> 2 ^ 53
      | NaN \<Rightarrow> False)"

definition fitsLine :: "Config \<Rightarrow> State \<Rightarrow> string \<Rightarrow> nat \<Rightarrow> bool" where
  "fitsLine c st line n =
     (if startsWith line ''commit '' then int (length line) \<le> SCREEN_WIDTH c
      else if startsWith line ''diff --git'' then True
      else if startsWith line ''@@'' then
        (case parseHunkHeader line of
           Inl e \<Rightarrow> True
         | Inr (a, b) \<Rightarrow> startFits c n a \<and> startFits c n b)
      else
        (case state st of
           Commit \<Rightarrow>
             int (length line) \<le> SCREEN_WIDTH c
             \<and> line \<noteq> ''commit'' \<and> line \<noteq> ''Author:'' \<and> line \<noteq> ''Date:''
         | Diff \<Rightarrow> int (length line) \<le> SCREEN_WIDTH c div 2
         | Hunk \<Rightarrow> True))"

text \<open>Every line of the input fits in the state in which the run meets it.\<close>

fun fitsRun :: "Config \<Rightarrow> Theme \<Rightarrow> Wrapper \<Rightarrow> State \<Rightarrow> string list \<Rightarrow> bool" where
  "fitsRun c t W st [] = True"
| "fitsRun c t W st (line # lines) =
     (fitsLine c st line (length lines)
      \<and> (case snd (step c t W st line) of
           Inl e \<Rightarrow> True
         | Inr st' \<Rightarrow> fitsRun c t W st' lines))"

text \<open>
  What the proof of the exact width keeps track of: a line half whose number and prefix
  fit their columns, a file name that fits the banner next to another one, and the
  state of a run with \<open>n\<close> lines still to come.
\<close>

definition halfFits :: "Config \<Rightarrow> HunkLineHalf \<Rightarrow> bool" where
  "halfFits c h =
     (case h of
        None \<Rightarrow> True
      | Some r \<Rightarrow> int (length (number r)) \<le> LINE_NUMBER_WIDTH c \<and> length (prefix r) \<le> 1)"

definition rowFits :: "Config \<Rightarrow> row \<Rightarrow> bool" where
  "rowFits c r = (halfFits c (fst r) \<and> halfFits c (snd r))"

definition nameFits :: "Config \<Rightarrow> string option \<Rightarrow> bool" where
  "nameFits c x =
     (case x of None \<Rightarrow> True | Some s \<Rightarrow> int (length s) \<le> SCREEN_WIDTH c div 2 - 4)"

definition runInv :: "Config \<Rightarrow> nat \<Rightarrow> State \<Rightarrow> bool" where
  "runInv c n st =
     (nameFits c (fileNameA st) \<and> nameFits c (fileNameB st)
      \<and> (state st \<noteq> Hunk \<longrightarrow> hunkLines st = [])
      \<and> (state st = Hunk \<longrightarrow>
            startFits c (length (hunkLines st) + n) (startA st)
            \<and> startFits c (length (hunkLines st) + n) (startB st)))"

text \<open>Every line of a list is exactly as wide as the screen.\<close>

abbreviation (input) exact :: "Config \<Rightarrow> string list \<Rightarrow> bool" where
  "exact c ls \<equiv> \<forall>l \<in> set ls. int (length l) = SCREEN_WIDTH c"

subsection \<open>Display width\<close>

text \<open>
  How many columns a string takes on the screen is a measure \<open>w\<close> on strings, which
  the properties below take as given together with the set \<open>p\<close> of the plain
  characters. \<open>widthMeasure w p\<close> says what they need of it: the empty string takes no
  column, a plain character at the head of a string takes one column whatever follows
  it, and the characters that the source writes itself are plain (the space, the
  digits, the sign and the letters of a number, the dash, the square). A tabulator, a
  wide character or a character that begins an escape sequence is not plain.
\<close>

definition plainText :: "(char \<Rightarrow> bool) \<Rightarrow> string \<Rightarrow> bool" where
  "plainText p s = list_all p s"

definition widthMeasure :: "(string \<Rightarrow> int) \<Rightarrow> (char \<Rightarrow> bool) \<Rightarrow> bool" where
  "widthMeasure w p =
     (w [] = 0 \<and> (\<forall>x s. p x \<longrightarrow> w (x # s) = 1 + w s)
      \<and> plainText p '' -0123456789Na'' \<and> p DASH \<and> p SQUARE)"

text \<open>
  A colour adds escape sequences only: a coloured piece takes the columns of its
  text, whatever follows it. A theme keeps the width when its fourteen colours do.
\<close>

definition keepsWidth :: "(string \<Rightarrow> int) \<Rightarrow> ThemeColor \<Rightarrow> bool" where
  "keepsWidth w f = (\<forall>s r. w (f s @ r) = w s + w r)"

definition themeKeepsWidth :: "(string \<Rightarrow> int) \<Rightarrow> Theme \<Rightarrow> bool" where
  "themeKeepsWidth w t =
     (keepsWidth w (COMMIT_COLOR t) \<and> keepsWidth w (COMMIT_SHA_COLOR t)
      \<and> keepsWidth w (COMMIT_AUTHOR_COLOR t) \<and> keepsWidth w (COMMIT_DATE_COLOR t)
      \<and> keepsWidth w (BORDER_COLOR t) \<and> keepsWidth w (FILE_NAME_COLOR t)
      \<and> keepsWidth w (HUNK_HEADER_COLOR t) \<and> keepsWidth w (DELETED_LINE_COLOR t)
      \<and> keepsWidth w (DELETED_LINE_NO_COLOR t) \<and> keepsWidth w (INSERTED_LINE_COLOR t)
      \<and> keepsWidth w (INSERTED_LINE_NO_COLOR t) \<and> keepsWidth w (UNMODIFIED_LINE_COLOR t)
      \<and> keepsWidth w (UNMODIFIED_LINE_NO_COLOR t) \<and> keepsWidth w (MISSING_LINE_COLOR t))"

text \<open>
  The wrapper, when lines are wrapped, makes the segments of a plain text of plain
  characters.
\<close>

definition wrapperPlain :: "(char \<Rightarrow> bool) \<Rightarrow> Config \<Rightarrow> Wrapper \<Rightarrow> bool" where
  "wrapperPlain p c W =
     (WRAP_LINES c \<longrightarrow>
        (\<forall>txt width. plainText p txt \<longrightarrow> (\<forall>seg \<in> set (W txt width). plainText p seg)))"

text \<open>
  The body line of the banner of a rename. The source colours the label
  \<open>fileNameA -> fileNameB\<close> first and pads it afterwards, so the padding counts the
  code units that the colour added; the width of this line is left out of the
  properties below.
\<close>

definition renameBody :: "Config \<Rightarrow> Theme \<Rightarrow> string \<Rightarrow> string \<Rightarrow> string" where
  "renameBody c t nameA nameB =
     FILE_NAME_COLOR t '' ''
     @ (DELETED_LINE_COLOR t [SQUARE] @ INSERTED_LINE_COLOR t [SQUARE])
     @ FILE_NAME_COLOR t
         ('' '' @ padEnd (FILE_NAME_COLOR t (nameA @ '' -> '' @ nameB)) (SCREEN_WIDTH c - 2 - 2))"

definition isRenameBody :: "Config \<Rightarrow> Theme \<Rightarrow> string \<Rightarrow> bool" where
  "isRenameBody c t l =
     (\<exists>nameA nameB. nameA \<noteq> [] \<and> nameB \<noteq> [] \<and> nameA \<noteq> nameB \<and> l = renameBody c t nameA nameB)"

text \<open>
  What the comparison with the plain theme keeps track of: file names, header line
  and buffered lines of the state are plain, and so are the number, the prefix and the
  text of a line half.
\<close>

definition plainName :: "(char \<Rightarrow> bool) \<Rightarrow> string option \<Rightarrow> bool" where
  "plainName p x = (case x of None \<Rightarrow> True | Some s \<Rightarrow> plainText p s)"

definition plainState :: "(char \<Rightarrow> bool) \<Rightarrow> State \<Rightarrow> bool" where
  "plainState p st =
     (plainName p (fileNameA st) \<and> plainName p (fileNameB st)
      \<and> plainText p (hunkHeaderLine st) \<and> list_all (plainText p) (hunkLines st))"

definition plainHalf :: "(char \<Rightarrow> bool) \<Rightarrow> HunkLineHalf \<Rightarrow> bool" where
  "plainHalf p h =
     (plainText p (halfNumber h) \<and> plainText p (halfPrefix h) \<and> plainText p (halfText h))"

text \<open>
  A line of a theme takes as many columns as the line of the plain theme has
  characters, unless it is the body line of a rename; a piece of a line does so
  whatever follows it.
\<close>

abbreviation (input) sameWidth ::
  "(string \<Rightarrow> int) \<Rightarrow> Config \<Rightarrow> Theme \<Rightarrow> string \<Rightarrow> string \<Rightarrow> bool" where
  "sameWidth w c t lt lp \<equiv> w lt = int (length lp) \<or> isRenameBody c t lt"

abbreviation (input) samePiece :: "(string \<Rightarrow> int) \<Rightarrow> string \<Rightarrow> string \<Rightarrow> bool" where
  "samePiece w a b \<equiv> \<forall>r. w (a @ r) = int (length b) + w r"

text \<open>
  The inputs on which the numbers of the model are those of the source: the start
  values of every hunk header are \<open>NaN\<close> or integers whose line numbers, over the lines
  that follow, stay in the range where the source's numbers are exact.
\<close>

definition safeStart :: "nat \<Rightarrow> jsnum \<Rightarrow> bool" where
  "safeStart n x = (case x of Num a \<Rightarrow> - (2 ^ 53) \<le> a \<and> a + int n \<le> 2 ^ 53 | NaN \<Rightarrow> True)"

fun safeInput :: "string list \<Rightarrow> bool" where
  "safeInput [] = True"
| "safeInput (line # lines) =
     ((case parseHunkHeader line of
         Inl e \<Rightarrow> True
       | Inr (a, b) \<Rightarrow> safeStart (length lines) a \<and> safeStart (length lines) b)
      \<and> safeInput lines)"

subsection \<open>Concrete runs\<close>

text \<open>The configurations and the wrapper used for the concrete runs below.\<close>

definition config20 :: Config where
  "config20 = \<lparr>SCREEN_WIDTH = 20, LINE_NUMBER_WIDTH = 2, LINE_PREFIX_WIDTH = 1,
      MIN_LINE_WIDTH = 0, WRAP_LINES = False\<rparr>"

definition noWrap :: Wrapper where
  "noWrap txt width = [txt]"

text \<open>
  A wrapper for the concrete runs that wrap: it cuts the text into pieces of \<open>width\<close>
  code units; an empty text, or a width of 0, gives one empty segment.
\<close>

definition chunkWrap :: Wrapper where
  "chunkWrap txt width =
     (let n = nat width
      in if n = 0 \<or> txt = [] then [[]]
         else map (\<lambda>i. take n (drop (i * n) txt)) [0..<(length txt + n - 1) div n])"

text \<open>
  A wrapper that yields no segment for the empty text and the text itself otherwise,
  to show what the line numbers need of the wrapper.
\<close>

definition skipEmptyWrap :: Wrapper where
  "skipEmptyWrap txt width = (if txt = [] then [] else [txt])"

definition config20w :: Config where
  "config20w = \<lparr>SCREEN_WIDTH = 20, LINE_NUMBER_WIDTH = 2, LINE_PREFIX_WIDTH = 1,
      MIN_LINE_WIDTH = 0, WRAP_LINES = True\<rparr>"

text \<open>
  A theme that makes the colours visible as text: each colour brackets its argument
  with its own mark.
\<close>

definition mark :: "string \<Rightarrow> ThemeColor" where
  "mark m s = ''<'' @ m @ ''>'' @ s @ ''</'' @ m @ ''>''"

definition markTheme :: Theme where
  "markTheme =
     \<lparr>COMMIT_COLOR = mark ''c'', COMMIT_SHA_COLOR = mark ''sha'',
      COMMIT_AUTHOR_COLOR = mark ''author'', COMMIT_DATE_COLOR = mark ''date'',
      BORDER_COLOR = mark ''b'', FILE_NAME_COLOR = mark ''f'', HUNK_HEADER_COLOR = mark ''h'',
      DELETED_LINE_COLOR = mark ''d'', DELETED_LINE_NO_COLOR = mark ''dn'',
      INSERTED_LINE_COLOR = mark ''i'', INSERTED_LINE_NO_COLOR = mark ''in'',
      UNMODIFIED_LINE_COLOR = mark ''u'', UNMODIFIED_LINE_NO_COLOR = mark ''un'',
      MISSING_LINE_COLOR = mark ''m''\<rparr>"

text \<open>
  A width measure and a theme for the concrete runs. \<open>visible k s\<close> counts the
  columns of \<open>s\<close> when the escape sequences \<open>ESC [ parameters m\<close> take none; \<open>k\<close> is
  the number of code units of a sequence that has begun and is not complete, which
  count when it does not complete. \<open>sgr on off\<close> is a colour that brackets its
  argument with two such sequences.
\<close>

definition ESC :: char where
  "ESC = CHR 0x1B"

definition isParam :: "char \<Rightarrow> bool" where
  "isParam x = (isDigit x \<or> x = CHR '';'')"

fun visible :: "nat \<Rightarrow> string \<Rightarrow> nat" where
  "visible k [] = k"
| "visible k (x # xs) =
     (if x = ESC then k + visible 1 xs
      else if k = 1 \<and> x = CHR ''['' then visible 2 xs
      else if 2 \<le> k \<and> isParam x then visible (Suc k) xs
      else if 2 \<le> k \<and> x = CHR ''m'' then visible 0 xs
      else Suc k + visible 0 xs)"

definition visibleWidth :: "string \<Rightarrow> int" where
  "visibleWidth s = int (visible 0 s)"

definition notEscape :: "char \<Rightarrow> bool" where
  "notEscape x = (x \<noteq> ESC)"

definition sgr :: "string \<Rightarrow> string \<Rightarrow> ThemeColor" where
  "sgr on off s = ESC # CHR ''['' # on @ ''m'' @ s @ ESC # CHR ''['' # off @ ''m''"

definition ansiTheme :: Theme where
  "ansiTheme =
     \<lparr>COMMIT_COLOR = sgr ''36'' ''39'', COMMIT_SHA_COLOR = sgr ''32'' ''39'',
      COMMIT_AUTHOR_COLOR = sgr ''1;34'' ''22;39'', COMMIT_DATE_COLOR = sgr ''37'' ''39'',
      BORDER_COLOR = sgr ''2'' ''22'', FILE_NAME_COLOR = sgr ''33'' ''39'',
      HUNK_HEADER_COLOR = sgr ''2;37'' ''22;39'', DELETED_LINE_COLOR = sgr ''31'' ''39'',
      DELETED_LINE_NO_COLOR = sgr ''2;31'' ''22;39'', INSERTED_LINE_COLOR = sgr ''32'' ''39'',
      INSERTED_LINE_NO_COLOR = sgr ''2;32'' ''22;39'', UNMODIFIED_LINE_COLOR = sgr ''37'' ''39'',
      UNMODIFIED_LINE_NO_COLOR = sgr ''2;37'' ''22;39'', MISSING_LINE_COLOR = sgr ''0'' ''0''\<rparr>"

section \<open>Derived widths\<close>

lemma LINE_WIDTH_ge_MIN: "MIN_LINE_WIDTH c \<le> LINE_WIDTH c"
  by (simp add: LINE_WIDTH_def)

lemma LINE_WIDTH_ge_half: "SCREEN_WIDTH c div 2 \<le> LINE_WIDTH c"
  by (simp add: LINE_WIDTH_def)

text \<open>
  Claim C2. The spec derives \<open>LINE_TEXT_WIDTH\<close> as
  \<open>LINE_WIDTH - 1 - LINE_PREFIX_WIDTH - 1 - LINE_NUMBER_WIDTH\<close> clamped to be at least 0.
  The source computes the difference without the clamp: for the valid Config with
  \<open>SCREEN_WIDTH = 2\<close>, \<open>LINE_NUMBER_WIDTH = 5\<close> and the other widths 0, \<open>LINE_WIDTH\<close> is 1
  (which is at least \<open>MIN_LINE_WIDTH\<close>) and \<open>LINE_TEXT_WIDTH\<close> is \<open>-6\<close>.
\<close>

theorem LINE_TEXT_WIDTH_negative:
  "validConfig \<lparr>SCREEN_WIDTH = 2, LINE_NUMBER_WIDTH = 5, LINE_PREFIX_WIDTH = 0,
       MIN_LINE_WIDTH = 0, WRAP_LINES = False\<rparr>
   \<and> LINE_WIDTH \<lparr>SCREEN_WIDTH = 2, LINE_NUMBER_WIDTH = 5, LINE_PREFIX_WIDTH = 0,
       MIN_LINE_WIDTH = 0, WRAP_LINES = False\<rparr> = 1
   \<and> LINE_TEXT_WIDTH \<lparr>SCREEN_WIDTH = 2, LINE_NUMBER_WIDTH = 5, LINE_PREFIX_WIDTH = 0,
       MIN_LINE_WIDTH = 0, WRAP_LINES = False\<rparr> = - 6"
  by (simp add: validConfig_def LINE_WIDTH_def LINE_TEXT_WIDTH_def)

section \<open>Strings\<close>

lemma length_padEnd: "int (length (padEnd s n)) = max (int (length s)) n"
  by (simp add: padEnd_def)

lemma length_padStartWith: "int (length (padStartWith s n x)) = max (int (length s)) n"
  by (simp add: padStartWith_def)

lemma length_padStart: "int (length (padStart s n)) = max (int (length s)) n"
  by (simp add: padStart_def length_padStartWith)

lemma split_Cons: "\<exists>fs. split x s = takeWhile (\<lambda>y. y \<noteq> x) s # fs"
  by (induction s) auto

lemma firstField_takeWhile: "firstField x s = takeWhile (\<lambda>y. y \<noteq> x) s"
  using split_Cons [of x s] by (auto simp: firstField_def)

lemma startsWith_Nil [simp]: "startsWith s []"
  by (simp add: startsWith_def)

lemma startsWith_Cons: "startsWith s (x # p) = (\<exists>r. s = x # r \<and> startsWith r p)"
  by (cases s) (auto simp: startsWith_def)

section \<open>Commit lines\<close>

text \<open>
  Claim C10. A line handled in the Commit state whose first space-delimited word is
  none of \<open>commit\<close>, \<open>Author:\<close> and \<open>Date:\<close> is passed to \<open>COMMIT_COLOR\<close> after
  \<open>padEnd(SCREEN_WIDTH)\<close> only: a line longer than \<open>SCREEN_WIDTH\<close> is emitted in full,
  neither truncated nor wrapped, and a line of length at most \<open>SCREEN_WIDTH\<close> is
  padded with spaces to exactly \<open>SCREEN_WIDTH\<close>. In the Commit state a line that is
  not a transition yields exactly that one line.
\<close>

theorem commit_line_not_truncated:
  assumes "firstField CHR '' '' line \<notin> {''commit'', ''Author:'', ''Date:''}"
  shows "(SCREEN_WIDTH c < int (length line) \<longrightarrow> formatCommitLine c t line = COMMIT_COLOR t line)
     \<and> (int (length line) \<le> SCREEN_WIDTH c \<longrightarrow>
          formatCommitLine c t line
            = COMMIT_COLOR t (line @ replicate (nat (SCREEN_WIDTH c - int (length line))) CHR '' '')
          \<and> int (length (line @ replicate (nat (SCREEN_WIDTH c - int (length line))) CHR '' ''))
            = SCREEN_WIDTH c)
     \<and> (state st = Commit \<and> \<not> isTransition line \<longrightarrow>
          step c t W st line = ([formatCommitLine c t line], Inr st))"
proof -
  from assms have none: "labelColorOf t (firstField CHR '' '' line) = None"
    by (simp add: labelColorOf_def)
  have fmt: "formatCommitLine c t line = COMMIT_COLOR t (padEnd line (SCREEN_WIDTH c))"
    by (simp add: formatCommitLine_def Let_def none)
  show ?thesis
    by (simp add: fmt padEnd_def step_def isTransition_def handleState_def)
qed

theorem commit_line_not_truncated_witness:
  "firstField CHR '' '' ''    Fix the parser of hunk headers'' \<notin> {''commit'', ''Author:'', ''Date:''}
   \<and> SCREEN_WIDTH config20 < int (length ''    Fix the parser of hunk headers'')
   \<and> formatCommitLine config20 plainTheme ''    Fix the parser of hunk headers''
       = ''    Fix the parser of hunk headers''
   \<and> state initialState = Commit
   \<and> \<not> isTransition ''    Fix the parser of hunk headers''
   \<and> step config20 plainTheme noWrap initialState ''    Fix the parser of hunk headers''
       = ([''    Fix the parser of hunk headers''], Inr initialState)
   \<and> firstField CHR '' '' ''    Fix it'' \<notin> {''commit'', ''Author:'', ''Date:''}
   \<and> int (length ''    Fix it'') \<le> SCREEN_WIDTH config20
   \<and> formatCommitLine config20 plainTheme ''    Fix it'' = ''    Fix it          ''"
proof -
  have f1: "firstField CHR '' '' ''    Fix the parser of hunk headers''
              \<notin> {''commit'', ''Author:'', ''Date:''}"
    by (simp add: firstField_takeWhile)
  have f2: "firstField CHR '' '' ''    Fix it'' \<notin> {''commit'', ''Author:'', ''Date:''}"
    by (simp add: firstField_takeWhile)
  have nt: "\<not> isTransition ''    Fix the parser of hunk headers''"
    by (simp add: isTransition_def startsWith_def)
  have sw: "SCREEN_WIDTH config20 = 20" "state initialState = Commit"
      "COMMIT_COLOR plainTheme = (\<lambda>s. s)"
    by (simp_all add: config20_def initialState_def plainTheme_def)
  show ?thesis
    using commit_line_not_truncated [OF f1, of config20 plainTheme initialState noWrap]
      commit_line_not_truncated [OF f2, of config20 plainTheme initialState noWrap] f1 f2 nt
    by (simp add: sw eval_nat_numeral)
qed

section \<open>The change-block accumulator\<close>

lemma truthy_Some [simp]: "truthy (Some s) = (s \<noteq> [])"
  by (simp add: truthy_def)

lemma truthy_None [simp]: "\<not> truthy None"
  by (simp add: truthy_def)

lemma templ_Some [simp]: "templ (Some s) = s"
  by (simp add: templ_def)

subsection \<open>Context lines\<close>

lemma consumed_simps [simp]:
  "consumedA fa [] = 0"
  "consumedB fb [] = 0"
  "consumedA fa (l # ls)
     = (if startsWith l ''-'' \<or> (\<not> startsWith l ''+'' \<and> truthy fa) then 1 else 0) + consumedA fa ls"
  "consumedB fb (l # ls)
     = (if \<not> startsWith l ''-'' \<and> (startsWith l ''+'' \<or> truthy fb) then 1 else 0) + consumedB fb ls"
  by (simp_all add: consumedA_def consumedB_def)

lemma not_minus_and_plus: "startsWith l ''-'' \<Longrightarrow> \<not> startsWith l ''+''"
  by (cases l) (auto simp: startsWith_def)

lemma hunkLoop_first_pair:
  "hunkLoop c t W fa fb ls (x # A) (y # B) nA nB out
     = hunkLoop c t W fa fb ls A B (incr nA) (incr nB)
         (out @ formatHunkLine c t W (Some (lineHalf nA x)) (Some (lineHalf nB y)))"
  by (induction ls arbitrary: A B) simp_all

lemma hunkLoop_is_spec:
  assumes "truthy fa" and "truthy fb"
  shows "hunkLoop c t W fa fb ls A B nA nB out = specAccumulate c t W ls A B nA nB out"
proof (induction ls arbitrary: A B nA nB out)
  case Nil
  show ?case by simp
next
  case (Cons l ls)
  show ?case
  proof (cases "startsWith l ''-'' \<or> startsWith l ''+''")
    case True
    then show ?thesis by (auto simp: Cons.IH)
  next
    case False
    obtain a b r where fl: "flushHunkChange c t W A B nA nB out = (a, b, r)"
      by (cases "flushHunkChange c t W A B nA nB out") auto
    have "hunkLoop c t W fa fb ls [l] [l] a b r
            = specAccumulate c t W ls [] [] (incr a) (incr b)
                (r @ formatHunkLine c t W (Some (lineHalf a l)) (Some (lineHalf b l)))"
      by (simp add: hunkLoop_first_pair Cons.IH)
    with False fl assms show ?thesis by simp
  qed
qed

lemma flushHunkChange_counters:
  "fst (flushHunkChange c t W A B nA nB out) = (incr ^^ length A) nA
   \<and> fst (snd (flushHunkChange c t W A B nA nB out)) = (incr ^^ length B) nB"
  by (induction c t W A B nA nB out rule: flushHunkChange.induct)
     (simp_all add: funpow_swap1)

lemma incr_funpow: "(incr ^^ m) ((incr ^^ n) x) = (incr ^^ (n + m)) x"
  by (simp add: funpow_add add.commute)

lemma hunkLoop_context_split:
  assumes "\<not> startsWith line ''-''" and "\<not> startsWith line ''+''"
  shows "hunkLoop c t W fa fb (pre @ line # rest) A B nA nB out
     = hunkLoop c t W fa fb rest
         (if truthy fa then [line] else []) (if truthy fb then [line] else [])
         ((incr ^^ (length A + consumedA fa pre)) nA)
         ((incr ^^ (length B + consumedB fb pre)) nB)
         (hunkLoop c t W fa fb pre A B nA nB out)"
proof (induction pre arbitrary: A B nA nB out)
  case Nil
  obtain a b r where fl: "flushHunkChange c t W A B nA nB out = (a, b, r)"
    by (cases "flushHunkChange c t W A B nA nB out") auto
  from flushHunkChange_counters [of c t W A B nA nB out] fl
  have "a = (incr ^^ length A) nA" "b = (incr ^^ length B) nB" by simp_all
  with fl assms show ?case by simp
next
  case (Cons l pre)
  show ?case
  proof (cases "startsWith l ''-''")
    case True
    then show ?thesis
      using Cons.IH [of "A @ [l]" B nA nB out] by (simp add: not_minus_and_plus)
  next
    case nm: False
    show ?thesis
    proof (cases "startsWith l ''+''")
      case True
      then show ?thesis
        using nm Cons.IH [of A "B @ [l]" nA nB out] by simp
    next
      case False
      obtain a b r where fl: "flushHunkChange c t W A B nA nB out = (a, b, r)"
        by (cases "flushHunkChange c t W A B nA nB out") auto
      from flushHunkChange_counters [of c t W A B nA nB out] fl
      have ab: "a = (incr ^^ length A) nA" "b = (incr ^^ length B) nB" by simp_all
      let ?A = "if truthy fa then [l] else []" and ?B = "if truthy fb then [l] else []"
      have ea: "(incr ^^ (length ?A + consumedA fa pre)) a
                  = (incr ^^ (length A + consumedA fa (l # pre))) nA"
        using nm False unfolding ab by (simp add: incr_funpow add.commute)
      have eb: "(incr ^^ (length ?B + consumedB fb pre)) b
                  = (incr ^^ (length B + consumedB fb (l # pre))) nB"
        using nm False unfolding ab by (simp add: incr_funpow add.commute)
      have "hunkLoop c t W fa fb ((l # pre) @ line # rest) A B nA nB out
              = hunkLoop c t W fa fb (pre @ line # rest) ?A ?B a b r"
        using nm False fl by simp
      also have "\<dots> = hunkLoop c t W fa fb rest
         (if truthy fa then [line] else []) (if truthy fb then [line] else [])
         ((incr ^^ (length ?A + consumedA fa pre)) a)
         ((incr ^^ (length ?B + consumedB fb pre)) b)
         (hunkLoop c t W fa fb pre ?A ?B a b r)"
        by (rule Cons.IH)
      also have "hunkLoop c t W fa fb pre ?A ?B a b r = hunkLoop c t W fa fb (l # pre) A B nA nB out"
        using nm False fl by simp
      finally show ?thesis
        unfolding ea eb .
    qed
  qed
qed

text \<open>
  Claim C1, amended. On every raw line that is neither a deletion nor an insertion,
  wherever it stands in the hunk, the accumulator flushes the pending buffers and
  restarts them with the context line on the sides whose file name is not empty. The
  lines formatted when the loop has passed the context line are those of the hunk cut
  off before it, final flush included, so the pending deletions and insertions are
  flushed as a change block and none is discarded; the counters have advanced by the
  lines that each side consumed; and the loop goes on with the buffers \<open>[line]\<close> on a
  side whose file name is not empty and \<open>[]\<close> on the other. A context line that ends
  the hunk is therefore one more row, shown on the sides whose file name is not empty
  next to a missing half, and no row when both are empty. When both file names are
  non-empty the lines that \<open>formatHunkSideBySide\<close> produces are those of the accumulator
  of the specification, which flushes the context line at once as a block of its own
  on both sides (the source leaves that second flush to the next context line or to
  the end of the hunk, with the same rows).
\<close>

theorem context_line_flush_and_restart:
  assumes "\<not> startsWith line ''-''" and "\<not> startsWith line ''+''"
  shows "formatHunkSideBySide c t W headerLine (pre @ line # rest) lineNoA lineNoB nameA nameB
           = hunkLoop c t W nameA nameB rest
               (if truthy nameA then [line] else []) (if truthy nameB then [line] else [])
               ((incr ^^ consumedA nameA pre) lineNoA) ((incr ^^ consumedB nameB pre) lineNoB)
               (formatHunkSideBySide c t W headerLine pre lineNoA lineNoB nameA nameB)
       \<and> formatHunkSideBySide c t W headerLine (pre @ [line]) lineNoA lineNoB nameA nameB
           = formatHunkSideBySide c t W headerLine pre lineNoA lineNoB nameA nameB
             @ (if truthy nameA \<or> truthy nameB then
                  formatHunkLine c t W
                    (if truthy nameA
                     then Some (lineHalf ((incr ^^ consumedA nameA pre) lineNoA) line) else None)
                    (if truthy nameB
                     then Some (lineHalf ((incr ^^ consumedB nameB pre) lineNoB) line) else None)
                else [])
       \<and> (truthy nameA \<and> truthy nameB \<longrightarrow>
            formatHunkSideBySide c t W headerLine rawLines lineNoA lineNoB nameA nameB
              = specFormatHunkSideBySide c t W headerLine rawLines lineNoA lineNoB)"
  using hunkLoop_context_split [OF assms, of c t W nameA nameB pre _ "[]" "[]" lineNoA lineNoB]
  by (simp add: formatHunkSideBySide_def specFormatHunkSideBySide_def hunkLoop_is_spec)

theorem context_line_flush_and_restart_witness:
  "\<not> startsWith '' ctx'' ''-'' \<and> \<not> startsWith '' ctx'' ''+''
   \<and> \<not> truthy (Some [])
   \<and> formatHunkSideBySide config20 plainTheme noWrap ''@@ -1 +1 @@''
        ([''+new1'', ''+new2''] @ '' ctx'' # [''+new3'']) (Num 1) (Num 1) (Some []) (Some ''f'')
      = [''@@ -1 +1 @@         '', ''           1 + new1 '', ''           2 + new2 '',
         ''           3   ctx  '', ''           4 + new3 '']
   \<and> formatHunkSideBySide config20 plainTheme noWrap ''@@ -1 +1 @@''
        ([''+new1'', ''+new2''] @ ['' ctx'']) (Num 1) (Num 1) (Some []) (Some ''f'')
      = [''@@ -1 +1 @@         '', ''           1 + new1 '', ''           2 + new2 '',
         ''           3   ctx  '']
   \<and> truthy (Some ''f'')
   \<and> formatHunkSideBySide config20 plainTheme noWrap ''@@ -1 +1 @@'' [''-a'', '' x'', ''+b'']
       (Num 1) (Num 1) (Some ''f'') (Some ''f'')
     = specFormatHunkSideBySide config20 plainTheme noWrap ''@@ -1 +1 @@'' [''-a'', '' x'', ''+b'']
         (Num 1) (Num 1)"
proof -
  have s: "\<not> startsWith '' ctx'' ''-''" "\<not> startsWith '' ctx'' ''+''"
    by (simp_all add: startsWith_def)
  note th = context_line_flush_and_restart [OF s, of config20 plainTheme noWrap "''@@ -1 +1 @@''"
      "[''+new1'', ''+new2'']" "[''+new3'']" "Num 1" "Num 1" "Some []" "Some ''f''"
      "[''-a'', '' x'', ''+b'']"]
  have e1: "hunkLoop config20 plainTheme noWrap (Some []) (Some ''f'') [''+new3'']
               (if truthy (Some []) then ['' ctx''] else [])
               (if truthy (Some ''f'') then ['' ctx''] else [])
               ((incr ^^ consumedA (Some []) [''+new1'', ''+new2'']) (Num 1))
               ((incr ^^ consumedB (Some ''f'') [''+new1'', ''+new2'']) (Num 1))
               (formatHunkSideBySide config20 plainTheme noWrap ''@@ -1 +1 @@''
                  [''+new1'', ''+new2''] (Num 1) (Num 1) (Some []) (Some ''f''))
      = [''@@ -1 +1 @@         '', ''           1 + new1 '', ''           2 + new2 '',
         ''           3   ctx  '', ''           4 + new3 '']"
    by code_simp
  have e2: "formatHunkSideBySide config20 plainTheme noWrap ''@@ -1 +1 @@''
                  [''+new1'', ''+new2''] (Num 1) (Num 1) (Some []) (Some ''f'')
             @ (if truthy (Some []) \<or> truthy (Some ''f'') then
                  formatHunkLine config20 plainTheme noWrap
                    (if truthy (Some [])
                     then Some (lineHalf ((incr ^^ consumedA (Some []) [''+new1'', ''+new2''])
                                   (Num 1)) '' ctx'') else None)
                    (if truthy (Some ''f'')
                     then Some (lineHalf ((incr ^^ consumedB (Some ''f'') [''+new1'', ''+new2''])
                                   (Num 1)) '' ctx'') else None)
                else [])
      = [''@@ -1 +1 @@         '', ''           1 + new1 '', ''           2 + new2 '',
         ''           3   ctx  '']"
    by code_simp
  have c1: "formatHunkSideBySide config20 plainTheme noWrap ''@@ -1 +1 @@''
        ([''+new1'', ''+new2''] @ '' ctx'' # [''+new3'']) (Num 1) (Num 1) (Some []) (Some ''f'')
      = [''@@ -1 +1 @@         '', ''           1 + new1 '', ''           2 + new2 '',
         ''           3   ctx  '', ''           4 + new3 '']"
    using th [THEN conjunct1] unfolding e1 .
  have c2: "formatHunkSideBySide config20 plainTheme noWrap ''@@ -1 +1 @@''
        ([''+new1'', ''+new2''] @ ['' ctx'']) (Num 1) (Num 1) (Some []) (Some ''f'')
      = [''@@ -1 +1 @@         '', ''           1 + new1 '', ''           2 + new2 '',
         ''           3   ctx  '']"
    using th [THEN conjunct2, THEN conjunct1] unfolding e2 .
  note th' = context_line_flush_and_restart [OF s, of config20 plainTheme noWrap "''@@ -1 +1 @@''"
      "[]" "[]" "Num 1" "Num 1" "Some ''f''" "Some ''f''" "[''-a'', '' x'', ''+b'']"]
  have c3: "formatHunkSideBySide config20 plainTheme noWrap ''@@ -1 +1 @@'' [''-a'', '' x'', ''+b'']
       (Num 1) (Num 1) (Some ''f'') (Some ''f'')
     = specFormatHunkSideBySide config20 plainTheme noWrap ''@@ -1 +1 @@'' [''-a'', '' x'', ''+b'']
         (Num 1) (Num 1)"
    using th' [THEN conjunct2, THEN conjunct2] by simp
  have t: "\<not> truthy (Some [])" "truthy (Some ''f'')"
    by simp_all
  show ?thesis
    using s t c1 c2 c3 by blast
qed

text \<open>
  Claim C1 as stated fails: with an empty \<open>fileNameA\<close> the context line \<open> x\<close> is not a
  block on both sides. The source shows it on the right only; the accumulator of the
  specification shows it on both sides.
\<close>

theorem context_line_two_sided_counterexample:
  "formatHunkSideBySide config20 plainTheme noWrap ''@@ -1 +1 @@'' ['' x'']
       (Num 1) (Num 1) (Some []) (Some ''f'')
     = [''@@ -1 +1 @@         '', ''           1   x    '']
   \<and> specFormatHunkSideBySide config20 plainTheme noWrap ''@@ -1 +1 @@'' ['' x''] (Num 1) (Num 1)
     = [''@@ -1 +1 @@         '', '' 1   x     1   x    '']
   \<and> formatHunkSideBySide config20 plainTheme noWrap ''@@ -1 +1 @@'' ['' x'']
       (Num 1) (Num 1) (Some []) (Some ''f'')
     \<noteq> specFormatHunkSideBySide config20 plainTheme noWrap ''@@ -1 +1 @@'' ['' x''] (Num 1) (Num 1)"
  by code_simp

subsection \<open>Rows and line numbers\<close>

lemma flushRows_acc:
  "flushRows A B nA nB (r1 @ r2)
     = (case flushRows A B nA nB r2 of (x, y, rs) \<Rightarrow> (x, y, r1 @ rs))"
  by (induction A B nA nB r2 arbitrary: r1 rule: flushRows.induct)
     (simp_all flip: append_assoc)

lemma flushHunkChange_rows:
  "flushHunkChange c t W A B nA nB (pre @ fmtRows c t W rows)
     = (case flushRows A B nA nB rows of (x, y, rs) \<Rightarrow> (x, y, pre @ fmtRows c t W rs))"
  by (induction A B nA nB rows rule: flushRows.induct) simp_all

lemma hunkLoop_rows:
  "hunkLoop c t W fa fb ls A B nA nB (pre @ fmtRows c t W rows)
     = pre @ fmtRows c t W (rowsLoop fa fb ls A B nA nB rows)"
proof (induction ls arbitrary: A B nA nB rows)
  case Nil
  show ?case by (simp add: flushHunkChange_rows split: prod.splits)
next
  case (Cons l ls)
  show ?case by (simp add: flushHunkChange_rows Cons.IH split: prod.splits)
qed

lemma formatHunkSideBySide_rows:
  "formatHunkSideBySide c t W headerLine rawLines nA nB fa fb
     = map (\<lambda>l. HUNK_HEADER_COLOR t (padEnd l (SCREEN_WIDTH c)))
         (fitTextToWidth c W headerLine (SCREEN_WIDTH c))
       @ fmtRows c t W (hunkRows rawLines nA nB fa fb)"
  using hunkLoop_rows [where rows = "[]"]
  by (simp add: formatHunkSideBySide_def hunkRows_def)

lemma numbersFrom_0 [simp]: "numbersFrom a 0 = []"
  by (simp add: numbersFrom_def)

lemma numbersFrom_Suc: "numbersFrom a (Suc n) = toString (Num a) # numbersFrom (a + 1) n"
proof -
  have "[0..<Suc n] = 0 # map Suc [0..<n]"
    by (simp add: upt_conv_Cons map_Suc_upt del: upt_Suc)
  then show ?thesis
    by (simp add: numbersFrom_def comp_def add.assoc del: upt_Suc)
qed

lemma numbersFrom_add: "numbersFrom a (m + n) = numbersFrom a m @ numbersFrom (a + int m) n"
  by (induction m arbitrary: a) (simp_all add: numbersFrom_Suc add.assoc)

lemma leftNumbers_append [simp]: "leftNumbers (r1 @ r2) = leftNumbers r1 @ leftNumbers r2"
  by (simp add: leftNumbers_def map_filter_def)

lemma rightNumbers_append [simp]: "rightNumbers (r1 @ r2) = rightNumbers r1 @ rightNumbers r2"
  by (simp add: rightNumbers_def map_filter_def)

lemma leftNumbers_simps [simp]:
  "leftNumbers [] = []"
  "leftNumbers ((Some h, y) # rs) = number h # leftNumbers rs"
  "leftNumbers ((None, y) # rs) = leftNumbers rs"
  by (simp_all add: leftNumbers_def map_filter_def)

lemma rightNumbers_simps [simp]:
  "rightNumbers [] = []"
  "rightNumbers ((x, Some h) # rs) = number h # rightNumbers rs"
  "rightNumbers ((x, None) # rs) = rightNumbers rs"
  by (simp_all add: rightNumbers_def map_filter_def)

lemma number_lineHalf [simp]: "number (lineHalf n l) = toString n"
  by (simp add: lineHalf_def)

lemma flushRows_numbers_aux:
  "nA = Num a \<Longrightarrow> nB = Num b \<Longrightarrow>
   \<exists>rs. flushRows A B nA nB rows
          = (Num (a + int (length A)), Num (b + int (length B)), rows @ rs)
        \<and> leftNumbers rs = numbersFrom a (length A)
        \<and> rightNumbers rs = numbersFrom b (length B)"
proof (induction A B nA nB rows arbitrary: a b rule: flushRows.induct)
  case (1 lineNoA lineNoB rows)
  then show ?case by simp
next
  case (2 x linesA lineNoA lineNoB rows)
  from "2.IH" [of "a + 1" b] "2.prems" show ?case
    by (auto simp: numbersFrom_Suc add.assoc simp del: toString.simps)
next
  case (3 y linesB lineNoA lineNoB rows)
  from "3.IH" [of a "b + 1"] "3.prems" show ?case
    by (auto simp: numbersFrom_Suc add.assoc simp del: toString.simps)
next
  case (4 x linesA y linesB lineNoA lineNoB rows)
  from "4.IH" [of "a + 1" "b + 1"] "4.prems" show ?case
    by (auto simp: numbersFrom_Suc add.assoc simp del: toString.simps)
qed

lemma flushRows_numbers:
  "\<exists>rs. flushRows A B (Num a) (Num b) rows
          = (Num (a + int (length A)), Num (b + int (length B)), rows @ rs)
        \<and> leftNumbers rs = numbersFrom a (length A)
        \<and> rightNumbers rs = numbersFrom b (length B)"
  by (rule flushRows_numbers_aux) simp_all

lemma rowsLoop_numbers:
  "\<exists>rs. rowsLoop fa fb ls A B (Num a) (Num b) rows = rows @ rs
        \<and> leftNumbers rs = numbersFrom a (length A + consumedA fa ls)
        \<and> rightNumbers rs = numbersFrom b (length B + consumedB fb ls)"
proof (induction ls arbitrary: A B a b rows)
  case Nil
  from flushRows_numbers [of A B a b rows] show ?case by auto
next
  case (Cons l ls)
  show ?case
  proof (cases "startsWith l ''-'' \<or> startsWith l ''+''")
    case True
    then show ?thesis
      using Cons.IH [of "A @ [l]" B a b rows] Cons.IH [of A "B @ [l]" a b rows]
      by (auto simp: not_minus_and_plus)
  next
    case False
    let ?A = "if truthy fa then [l] else []" and ?B = "if truthy fb then [l] else []"
    obtain rs where rs: "flushRows A B (Num a) (Num b) rows
          = (Num (a + int (length A)), Num (b + int (length B)), rows @ rs)"
        "leftNumbers rs = numbersFrom a (length A)"
        "rightNumbers rs = numbersFrom b (length B)"
      using flushRows_numbers [of A B a b rows] by auto
    obtain rs' where rs': "rowsLoop fa fb ls ?A ?B
           (Num (a + int (length A))) (Num (b + int (length B))) (rows @ rs) = (rows @ rs) @ rs'"
        "leftNumbers rs' = numbersFrom (a + int (length A)) (length ?A + consumedA fa ls)"
        "rightNumbers rs' = numbersFrom (b + int (length B)) (length ?B + consumedB fb ls)"
      using Cons.IH [of ?A ?B "a + int (length A)" "b + int (length B)" "rows @ rs"] by auto
    have "rowsLoop fa fb (l # ls) A B (Num a) (Num b) rows = rows @ (rs @ rs')"
      using False rs(1) rs'(1) by simp
    moreover have "leftNumbers (rs @ rs') = numbersFrom a (length A + consumedA fa (l # ls))"
      using False by (simp add: rs rs' numbersFrom_add)
    moreover have "rightNumbers (rs @ rs') = numbersFrom b (length B + consumedB fb (l # ls))"
      using False by (simp add: rs rs' numbersFrom_add)
    ultimately show ?thesis by blast
  qed
qed

lemma shownColumns_format:
  "formatHunkLineHalf c no pre seg (lineColorForLineHalf t h) (lineNoColorForLineHalf t h)
     = shownColumns c t h no pre seg"
  by (simp add: formatHunkLineHalf_def shownColumns_def)

lemma shownHalf_format:
  "formatAndFitHunkLineHalf c W h (lineColorForLineHalf t h) (lineNoColorForLineHalf t h)
     = shownHalf c t W h"
  by (simp add: formatAndFitHunkLineHalf_def shownHalf_def shownColumns_format halfNumber_def
        halfPrefix_def halfText_def Let_def split: list.splits)

lemma formatHunkLine_shown: "formatHunkLine c t W x y = shownRow c t W (x, y)"
  by (simp add: formatHunkLine_def shownRow_def shownHalf_format Let_def)

lemma fmtRows_shown: "fmtRows c t W rows = concat (map (shownRow c t W) rows)"
  by (induction rows) (auto simp: formatHunkLine_shown)

lemma formatHunkSideBySide_shown:
  "formatHunkSideBySide c t W headerLine rawLines nA nB fa fb
     = map (\<lambda>l. HUNK_HEADER_COLOR t (padEnd l (SCREEN_WIDTH c)))
         (fitTextToWidth c W headerLine (SCREEN_WIDTH c))
       @ concat (map (shownRow c t W) (hunkRows rawLines nA nB fa fb))"
  by (simp only: formatHunkSideBySide_rows fmtRows_shown)

lemma shownRow_first:
  assumes "fitTextToWidth c W (halfText x) (LINE_TEXT_WIDTH c) = sa # ra"
    and "fitTextToWidth c W (halfText y) (LINE_TEXT_WIDTH c) = sb # rb"
  shows "shownRow c t W (x, y)
     = (shownColumns c t x (halfNumber x) (halfPrefix x) sa
        @ shownColumns c t y (halfNumber y) (halfPrefix y) sb)
       # pairLines (lineColorForLineHalf t x (BLANK_LINE c))
           (lineColorForLineHalf t y (BLANK_LINE c))
           (map (shownColumns c t x [] []) ra) (map (shownColumns c t y [] []) rb)"
  by (simp add: shownRow_def shownHalf_def assms)

lemma segments_nonempty:
  assumes "WRAP_LINES c \<longrightarrow> (\<forall>txt. W txt width \<noteq> [])"
  shows "\<exists>s ss. fitTextToWidth c W txt width = s # ss"
  using assms by (cases "W txt width") (auto simp: fitTextToWidth_def)

lemma chunkWrap_nonempty: "chunkWrap txt width \<noteq> []"
proof (cases "nat width = 0 \<or> txt = []")
  case True
  then show ?thesis by (auto simp: chunkWrap_def)
next
  case False
  then have "nat width \<le> length txt + nat width - 1"
    by (cases "txt") auto
  then have "0 < (length txt + nat width - 1) div nat width"
    using False by (simp add: div_greater_zero_iff)
  with False show ?thesis by (simp add: chunkWrap_def Let_def)
qed

text \<open>
  Claim C5. The lines of a hunk are its header lines followed by the lines of its
  rows. For start values \<open>a\<close> and \<open>b\<close> (integers from 0 on, in the range where the
  source's numbers are exact), the line numbers of the left halves that are not missing
  are exactly \<open>a, a + 1, \<dots>\<close>, one for each raw line that the left side consumes, and
  those of the right halves \<open>b, b + 1, \<dots>\<close>: a missing half takes no number. Every
  row shows its numbers, provided that the wrapper, when lines are wrapped, yields at
  least one segment for every text (cutting the text, when they are not, always
  yields one): the first line of the row is the number of the left half, right-aligned
  to \<open>LINE_NUMBER_WIDTH\<close> in its line-number colour, with the prefix and the first
  segment after it, followed by the same for the right half; the other lines of the
  row have an empty number.
\<close>

theorem line_numbers_shown_consecutive:
  assumes "0 \<le> a" and "a + int (length rawLines) \<le> 2 ^ 53"
    and "0 \<le> b" and "b + int (length rawLines) \<le> 2 ^ 53"
    and "WRAP_LINES c \<longrightarrow> (\<forall>txt. W txt (LINE_TEXT_WIDTH c) \<noteq> [])"
  shows "formatHunkSideBySide c t W headerLine rawLines (Num a) (Num b) nameA nameB
           = map (\<lambda>l. HUNK_HEADER_COLOR t (padEnd l (SCREEN_WIDTH c)))
               (fitTextToWidth c W headerLine (SCREEN_WIDTH c))
             @ concat (map (shownRow c t W) (hunkRows rawLines (Num a) (Num b) nameA nameB))
       \<and> leftNumbers (hunkRows rawLines (Num a) (Num b) nameA nameB)
           = numbersFrom a (consumedA nameA rawLines)
       \<and> rightNumbers (hunkRows rawLines (Num a) (Num b) nameA nameB)
           = numbersFrom b (consumedB nameB rawLines)
       \<and> (\<forall>r \<in> set (hunkRows rawLines (Num a) (Num b) nameA nameB).
            \<exists>sa ra sb rb.
              fitTextToWidth c W (halfText (fst r)) (LINE_TEXT_WIDTH c) = sa # ra
              \<and> fitTextToWidth c W (halfText (snd r)) (LINE_TEXT_WIDTH c) = sb # rb
              \<and> shownRow c t W r
                  = (shownColumns c t (fst r) (halfNumber (fst r)) (halfPrefix (fst r)) sa
                     @ shownColumns c t (snd r) (halfNumber (snd r)) (halfPrefix (snd r)) sb)
                    # pairLines (lineColorForLineHalf t (fst r) (BLANK_LINE c))
                        (lineColorForLineHalf t (snd r) (BLANK_LINE c))
                        (map (shownColumns c t (fst r) [] []) ra)
                        (map (shownColumns c t (snd r) [] []) rb))"
proof (intro conjI ballI)
  show "formatHunkSideBySide c t W headerLine rawLines (Num a) (Num b) nameA nameB
           = map (\<lambda>l. HUNK_HEADER_COLOR t (padEnd l (SCREEN_WIDTH c)))
               (fitTextToWidth c W headerLine (SCREEN_WIDTH c))
             @ concat (map (shownRow c t W) (hunkRows rawLines (Num a) (Num b) nameA nameB))"
    by (rule formatHunkSideBySide_shown)
  show "leftNumbers (hunkRows rawLines (Num a) (Num b) nameA nameB)
           = numbersFrom a (consumedA nameA rawLines)"
    using rowsLoop_numbers [of nameA nameB rawLines "[]" "[]" a b "[]"]
    by (auto simp: hunkRows_def)
  show "rightNumbers (hunkRows rawLines (Num a) (Num b) nameA nameB)
           = numbersFrom b (consumedB nameB rawLines)"
    using rowsLoop_numbers [of nameA nameB rawLines "[]" "[]" a b "[]"]
    by (auto simp: hunkRows_def)
next
  fix r :: row
  obtain x y where r: "r = (x, y)" by (cases r)
  obtain sa ra where sa: "fitTextToWidth c W (halfText x) (LINE_TEXT_WIDTH c) = sa # ra"
    using segments_nonempty [of c W "LINE_TEXT_WIDTH c" "halfText x"] assms(5) by blast
  obtain sb rb where sb: "fitTextToWidth c W (halfText y) (LINE_TEXT_WIDTH c) = sb # rb"
    using segments_nonempty [of c W "LINE_TEXT_WIDTH c" "halfText y"] assms(5) by blast
  from shownRow_first [OF sa sb, of t] sa sb
  show "\<exists>sa ra sb rb.
              fitTextToWidth c W (halfText (fst r)) (LINE_TEXT_WIDTH c) = sa # ra
              \<and> fitTextToWidth c W (halfText (snd r)) (LINE_TEXT_WIDTH c) = sb # rb
              \<and> shownRow c t W r
                  = (shownColumns c t (fst r) (halfNumber (fst r)) (halfPrefix (fst r)) sa
                     @ shownColumns c t (snd r) (halfNumber (snd r)) (halfPrefix (snd r)) sb)
                    # pairLines (lineColorForLineHalf t (fst r) (BLANK_LINE c))
                        (lineColorForLineHalf t (snd r) (BLANK_LINE c))
                        (map (shownColumns c t (fst r) [] []) ra)
                        (map (shownColumns c t (snd r) [] []) rb)"
    unfolding r fst_conv snd_conv by blast
qed

theorem line_numbers_shown_consecutive_witness:
  "(0::int) \<le> 7
   \<and> 7 + int (length [''-a long deleted line'', ''+new'', '' x'']) \<le> (2::int) ^ 53
   \<and> WRAP_LINES config20w
   \<and> (\<forall>txt. chunkWrap txt (LINE_TEXT_WIDTH config20w) \<noteq> [])
   \<and> formatHunkSideBySide config20w plainTheme chunkWrap ''@@ -7 +7 @@''
        [''-a long deleted line'', ''+new'', '' x''] (Num 7) (Num 7) (Some ''f'') (Some ''f'')
      = [''@@ -7 +7 @@         '', '' 7 - a lon 7 + new  '', ''     g del          '',
         ''     eted           '', ''     line           '', '' 8   x     8   x    '']
   \<and> leftNumbers (hunkRows [''-a long deleted line'', ''+new'', '' x''] (Num 7) (Num 7)
         (Some ''f'') (Some ''f'')) = [''7'', ''8'']
   \<and> rightNumbers (hunkRows [''-a long deleted line'', ''+new'', '' x''] (Num 7) (Num 7)
         (Some ''f'') (Some ''f'')) = [''7'', ''8'']
   \<and> (0::int) \<le> 1
   \<and> 1 + int (length [''-foo'', ''+bar'', ''+baz'', '' qux'']) \<le> (2::int) ^ 53
   \<and> \<not> WRAP_LINES config20
   \<and> formatHunkSideBySide config20 plainTheme noWrap ''@@ -1,1 +1,2 @@''
        [''-foo'', ''+bar'', ''+baz'', '' qux''] (Num 1) (Num 1) (Some ''f'') (Some ''f'')
      = [''@@ -1,1 +1,2 @@     '', '' 1 - foo   1 + bar  '', ''           2 + baz  '',
         '' 2   qux   3   qux  '']
   \<and> leftNumbers (hunkRows [''-foo'', ''+bar'', ''+baz'', '' qux''] (Num 1) (Num 1)
         (Some ''f'') (Some ''f'')) = [''1'', ''2'']
   \<and> rightNumbers (hunkRows [''-foo'', ''+bar'', ''+baz'', '' qux''] (Num 1) (Num 1)
         (Some ''f'') (Some ''f'')) = [''1'', ''2'', ''3'']"
proof -
  have w: "WRAP_LINES config20w" "\<not> WRAP_LINES config20"
    by (simp_all add: config20w_def config20_def)
  have n: "\<forall>txt. chunkWrap txt (LINE_TEXT_WIDTH config20w) \<noteq> []"
    by (simp add: chunkWrap_nonempty)
  have h7: "(0::int) \<le> 7"
      "7 + int (length [''-a long deleted line'', ''+new'', '' x'']) \<le> (2::int) ^ 53"
    by simp_all
  have h1: "(0::int) \<le> 1"
      "1 + int (length [''-foo'', ''+bar'', ''+baz'', '' qux'']) \<le> (2::int) ^ 53"
    by simp_all
  note t7 = line_numbers_shown_consecutive [OF h7 h7, of config20w chunkWrap plainTheme
      "''@@ -7 +7 @@''" "Some ''f''" "Some ''f''"]
  note t1 = line_numbers_shown_consecutive [OF h1 h1, of config20 noWrap plainTheme
      "''@@ -1,1 +1,2 @@''" "Some ''f''" "Some ''f''"]
  have e7: "map (\<lambda>l. HUNK_HEADER_COLOR plainTheme (padEnd l (SCREEN_WIDTH config20w)))
              (fitTextToWidth config20w chunkWrap ''@@ -7 +7 @@'' (SCREEN_WIDTH config20w))
            @ concat (map (shownRow config20w plainTheme chunkWrap)
                (hunkRows [''-a long deleted line'', ''+new'', '' x''] (Num 7) (Num 7)
                   (Some ''f'') (Some ''f'')))
      = [''@@ -7 +7 @@         '', '' 7 - a lon 7 + new  '', ''     g del          '',
         ''     eted           '', ''     line           '', '' 8   x     8   x    '']"
    by code_simp
  have e1: "map (\<lambda>l. HUNK_HEADER_COLOR plainTheme (padEnd l (SCREEN_WIDTH config20)))
              (fitTextToWidth config20 noWrap ''@@ -1,1 +1,2 @@'' (SCREEN_WIDTH config20))
            @ concat (map (shownRow config20 plainTheme noWrap)
                (hunkRows [''-foo'', ''+bar'', ''+baz'', '' qux''] (Num 1) (Num 1)
                   (Some ''f'') (Some ''f'')))
      = [''@@ -1,1 +1,2 @@     '', '' 1 - foo   1 + bar  '', ''           2 + baz  '',
         '' 2   qux   3   qux  '']"
    by code_simp
  have a7: "numbersFrom 7 (consumedA (Some ''f'') [''-a long deleted line'', ''+new'', '' x''])
             = [''7'', ''8'']"
      "numbersFrom 7 (consumedB (Some ''f'') [''-a long deleted line'', ''+new'', '' x''])
             = [''7'', ''8'']"
    by code_simp+
  have a1: "numbersFrom 1 (consumedA (Some ''f'') [''-foo'', ''+bar'', ''+baz'', '' qux''])
             = [''1'', ''2'']"
      "numbersFrom 1 (consumedB (Some ''f'') [''-foo'', ''+bar'', ''+baz'', '' qux''])
             = [''1'', ''2'', ''3'']"
    by code_simp+
  have c7: "formatHunkSideBySide config20w plainTheme chunkWrap ''@@ -7 +7 @@''
        [''-a long deleted line'', ''+new'', '' x''] (Num 7) (Num 7) (Some ''f'') (Some ''f'')
      = [''@@ -7 +7 @@         '', '' 7 - a lon 7 + new  '', ''     g del          '',
         ''     eted           '', ''     line           '', '' 8   x     8   x    '']"
    using t7 [THEN conjunct1] n unfolding e7 by simp
  have l7: "leftNumbers (hunkRows [''-a long deleted line'', ''+new'', '' x''] (Num 7) (Num 7)
         (Some ''f'') (Some ''f'')) = [''7'', ''8'']"
    using t7 [THEN conjunct2, THEN conjunct1] n unfolding a7 by simp
  have r7: "rightNumbers (hunkRows [''-a long deleted line'', ''+new'', '' x''] (Num 7) (Num 7)
         (Some ''f'') (Some ''f'')) = [''7'', ''8'']"
    using t7 [THEN conjunct2, THEN conjunct2, THEN conjunct1] n unfolding a7 by simp
  have c1: "formatHunkSideBySide config20 plainTheme noWrap ''@@ -1,1 +1,2 @@''
        [''-foo'', ''+bar'', ''+baz'', '' qux''] (Num 1) (Num 1) (Some ''f'') (Some ''f'')
      = [''@@ -1,1 +1,2 @@     '', '' 1 - foo   1 + bar  '', ''           2 + baz  '',
         '' 2   qux   3   qux  '']"
    using t1 [THEN conjunct1] w(2) unfolding e1 by simp
  have l1: "leftNumbers (hunkRows [''-foo'', ''+bar'', ''+baz'', '' qux''] (Num 1) (Num 1)
         (Some ''f'') (Some ''f'')) = [''1'', ''2'']"
    using t1 [THEN conjunct2, THEN conjunct1] w(2) unfolding a1 by simp
  have r1: "rightNumbers (hunkRows [''-foo'', ''+bar'', ''+baz'', '' qux''] (Num 1) (Num 1)
         (Some ''f'') (Some ''f'')) = [''1'', ''2'', ''3'']"
    using t1 [THEN conjunct2, THEN conjunct2, THEN conjunct1] w(2) unfolding a1 by simp
  show ?thesis
    using w n h7 h1 c7 l7 r7 c1 l1 r1 by blast
qed

text \<open>
  What the proviso on the wrapper is for: with a wrapper that yields no segment for
  the empty text, the row of a deleted empty line has no line at all, so the rows of
  this hunk show the numbers 1 and 3 while its left halves are numbered 1, 2 and 3.
\<close>

lemma number_not_shown_without_segment:
  "formatHunkSideBySide config20w plainTheme skipEmptyWrap ''@@ -1,3 +1,0 @@''
       [''-a'', ''-'', ''-c''] (Num 1) (Num 1) (Some ''f'') (Some ''f'')
     = [''@@ -1,3 +1,0 @@     '', '' 1 - a              '', '' 3 - c              '']
   \<and> leftNumbers (hunkRows [''-a'', ''-'', ''-c''] (Num 1) (Num 1) (Some ''f'') (Some ''f''))
     = [''1'', ''2'', ''3'']"
  by code_simp

section \<open>The file-name banner\<close>

text \<open>
  Claim C7. For every pair of file names the banner is the horizontal separator
  (\<open>SCREEN_WIDTH\<close> dashes in the border colour), the body line and the same
  separator again. The body line carries the indicator:
  two squares in the inserted colour when \<open>fileNameA\<close> is empty, two squares in the
  deleted colour when \<open>fileNameB\<close> is empty, and otherwise one square in the deleted
  colour followed by one in the inserted colour. Its label is \<open>fileNameB\<close> when
  \<open>fileNameA\<close> is empty, \<open>fileNameA\<close> when \<open>fileNameB\<close> is empty or both are equal,
  and \<open>fileNameA -> fileNameB\<close> (passed through the file-name colour) when they
  differ.
\<close>

theorem banner_by_file_names:
  "formatFileName c t (Some nameA) (Some nameB) =
     ([HORIZONTAL_SEPARATOR c t,
       FILE_NAME_COLOR t '' ''
       @ (if nameA = [] then INSERTED_LINE_COLOR t [SQUARE, SQUARE]
          else if nameB = [] then DELETED_LINE_COLOR t [SQUARE, SQUARE]
          else DELETED_LINE_COLOR t [SQUARE] @ INSERTED_LINE_COLOR t [SQUARE])
       @ FILE_NAME_COLOR t
           ('' '' @ padEnd (if nameA = [] then nameB
                            else if nameB = [] then nameA
                            else if nameA = nameB then nameA
                            else FILE_NAME_COLOR t (nameA @ '' -> '' @ nameB))
                      (SCREEN_WIDTH c - 4)),
       HORIZONTAL_SEPARATOR c t], None)
   \<and> HORIZONTAL_SEPARATOR c t = BORDER_COLOR t (replicate (nat (SCREEN_WIDTH c)) DASH)"
  by (simp add: formatFileName_def fileNameBody_def HORIZONTAL_SEPARATOR_def padStartWith_def)

theorem banner_by_file_names_witness:
  "formatFileName config20 markTheme (Some ''old.txt'') (Some ''new.txt'')
     = ([HORIZONTAL_SEPARATOR config20 markTheme,
         ''<f> </f><d>'' @ [SQUARE] @ ''</d><i>'' @ [SQUARE]
           @ ''</i><f> <f>old.txt -> new.txt</f></f>'',
         HORIZONTAL_SEPARATOR config20 markTheme], None)
   \<and> formatFileName config20 markTheme (Some ''a.txt'') (Some ''a.txt'')
     = ([HORIZONTAL_SEPARATOR config20 markTheme,
         ''<f> </f><d>'' @ [SQUARE] @ ''</d><i>'' @ [SQUARE] @ ''</i><f> a.txt           </f>'',
         HORIZONTAL_SEPARATOR config20 markTheme], None)
   \<and> formatFileName config20 markTheme (Some []) (Some ''new.txt'')
     = ([HORIZONTAL_SEPARATOR config20 markTheme,
         ''<f> </f><i>'' @ [SQUARE, SQUARE] @ ''</i><f> new.txt         </f>'',
         HORIZONTAL_SEPARATOR config20 markTheme], None)
   \<and> formatFileName config20 markTheme (Some ''old.txt'') (Some [])
     = ([HORIZONTAL_SEPARATOR config20 markTheme,
         ''<f> </f><d>'' @ [SQUARE, SQUARE] @ ''</d><f> old.txt         </f>'',
         HORIZONTAL_SEPARATOR config20 markTheme], None)"
  using banner_by_file_names [of config20 markTheme "''old.txt''" "''new.txt''"]
    banner_by_file_names [of config20 markTheme "''a.txt''" "''a.txt''"]
    banner_by_file_names [of config20 markTheme "[]" "''new.txt''"]
    banner_by_file_names [of config20 markTheme "''old.txt''" "[]"]
  by (simp add: markTheme_def mark_def config20_def padEnd_def eval_nat_numeral)

text \<open>
  The pattern for binary files can leave a name undefined. An undefined name counts
  as empty, but when it becomes the label, padding it throws after the first
  separator.
\<close>

lemma banner_undefined_label:
  "\<not> truthy nameA \<Longrightarrow>
   formatFileName c t nameA None = ([HORIZONTAL_SEPARATOR c t], Some TypeError)"
  by (simp add: formatFileName_def fileNameBody_def)

text \<open>
  Where it does not become the label, an undefined name is treated as the empty name:
  the banner of an added or a deleted binary file is that of the claim.
\<close>

lemma banner_undefined_name:
  "formatFileName c t None (Some nameB) = formatFileName c t (Some []) (Some nameB)"
  "nameA \<noteq> [] \<Longrightarrow>
   formatFileName c t (Some nameA) None = formatFileName c t (Some nameA) (Some [])"
  by (simp_all add: formatFileName_def)

lemma banner_complete:
  assumes "nameB \<noteq> None \<or> truthy nameA"
  shows "\<exists>body. formatFileName c t nameA nameB
           = ([HORIZONTAL_SEPARATOR c t, body, HORIZONTAL_SEPARATOR c t], None)"
  using assms
  by (cases nameA; cases nameB) (auto simp: formatFileName_def fileNameBody_def)

section \<open>The state machine\<close>

lemma startsWith_at_not_commit: "startsWith l ''@@'' \<Longrightarrow> \<not> startsWith l ''commit ''"
  by (cases l) (auto simp: startsWith_def)

lemma startsWith_at_not_diff: "startsWith l ''@@'' \<Longrightarrow> \<not> startsWith l ''diff --git''"
  by (cases l) (auto simp: startsWith_def)

lemma startsWith_diff_not_commit: "startsWith l ''diff --git'' \<Longrightarrow> \<not> startsWith l ''commit ''"
  by (cases l) (auto simp: startsWith_def)

lemma trackFileHeader_diff_line: "startsWith l ''diff --git'' \<Longrightarrow> trackFileHeader st l = st"
  by (cases l) (auto simp: trackFileHeader_def startsWith_def)

lemma state_trackFileHeader [simp]: "state (trackFileHeader st l) = state st"
  by (simp add: trackFileHeader_def split: option.splits prod.splits)

lemma hunkLines_trackFileHeader [simp]: "hunkLines (trackFileHeader st l) = hunkLines st"
  by (simp add: trackFileHeader_def split: option.splits prod.splits)

lemma flushPending_Hunk:
  "state st = Hunk \<Longrightarrow> flushPending c t W st = (pendingHunk c t W st, Inr (st\<lparr>hunkLines := []\<rparr>))"
  by (simp add: flushPending_def yieldHunk_def)

lemma flushForCommit_Hunk:
  "state st = Hunk \<Longrightarrow>
   flushForCommit c t W st
     = (pendingHunk c t W st @ [HORIZONTAL_SEPARATOR c t], Inr (st\<lparr>hunkLines := []\<rparr>))"
  by (simp add: flushForCommit_def yieldHunk_def)

lemma flushPending_Commit: "state st = Commit \<Longrightarrow> flushPending c t W st = ([], Inr st)"
  by (simp add: flushPending_def)

lemma flushPending_Diff:
  "state st = Diff \<Longrightarrow>
   flushPending c t W st
     = (fst (formatFileName c t (fileNameA st) (fileNameB st)),
        case snd (formatFileName c t (fileNameA st) (fileNameB st)) of
          Some e \<Rightarrow> Inl e | None \<Rightarrow> Inr st)"
  by (simp add: flushPending_def yieldFileName_def split: prod.splits option.splits)

lemma flushPending_names:
  assumes "flushPending c t W st = (fl, Inr st')"
  shows "fileNameA st' = fileNameA st \<and> fileNameB st' = fileNameB st"
  using assms
  by (cases "state st")
     (auto simp: flushPending_def yieldFileName_def yieldHunk_def split: prod.splits option.splits)

lemma step_commit_in_Hunk:
  "state st = Hunk \<Longrightarrow> startsWith line ''commit '' \<Longrightarrow>
   step c t W st line
     = (pendingHunk c t W st @ [HORIZONTAL_SEPARATOR c t, formatCommitLine c t line],
        Inr (st\<lparr>hunkLines := [], state := Commit\<rparr>))"
  by (simp add: step_def flushForCommit_Hunk handleState_def)

lemma step_diff_in_Hunk:
  "state st = Hunk \<Longrightarrow> startsWith line ''diff --git'' \<Longrightarrow>
   step c t W st line
     = (pendingHunk c t W st,
        Inr (st\<lparr>hunkLines := [], state := Diff, fileNameA := Some [], fileNameB := Some []\<rparr>))"
  by (simp add: step_def flushPending_Hunk handleState_def startsWith_diff_not_commit
        trackFileHeader_diff_line)

lemma step_header:
  "startsWith line ''@@'' \<Longrightarrow>
   step c t W st line
     = (case flushPending c t W st of
          (ys, Inl e) \<Rightarrow> (ys, Inl e)
        | (ys, Inr st') \<Rightarrow>
            (case parseHunkHeader line of
               Inl e \<Rightarrow> (ys, Inl e)
             | Inr (a, b) \<Rightarrow>
                 (ys, Inr (st'\<lparr>hunkHeaderLine := line, startA := a, startB := b,
                               state := Hunk\<rparr>))))"
  by (simp add: step_def startsWith_at_not_commit startsWith_at_not_diff)

lemma step_header_in_Hunk:
  "state st = Hunk \<Longrightarrow> startsWith line ''@@'' \<Longrightarrow>
   fst (step c t W st line) = pendingHunk c t W st"
  by (simp add: step_header flushPending_Hunk split: sum.splits prod.splits)

lemma step_plain:
  "\<not> isTransition line \<Longrightarrow>
   step c t W st line = (fst (handleState c t st line), Inr (snd (handleState c t st line)))"
  by (simp add: step_def isTransition_def split: prod.splits)

lemma feed_append:
  "feed c t W st (xs @ ys)
     = (case feed c t W st xs of
          (o1, Inl e) \<Rightarrow> (o1, Inl e)
        | (o1, Inr st') \<Rightarrow> (case feed c t W st' ys of (o2, r) \<Rightarrow> (o1 @ o2, r)))"
  by (induction xs arbitrary: st) (auto split: prod.splits sum.splits)

lemma feed_hunk_body:
  "state st = Hunk \<Longrightarrow> list_all (\<lambda>l. \<not> isTransition l) body \<Longrightarrow>
   feed c t W st body = ([], Inr (st\<lparr>hunkLines := hunkLines st @ body\<rparr>))"
proof (induction body arbitrary: st)
  case Nil
  then show ?case by simp
next
  case (Cons l body)
  then show ?case by (simp add: step_plain handleState_def)
qed

lemma feed_diff_body:
  "state st = Diff \<Longrightarrow> list_all (\<lambda>l. \<not> isTransition l) body \<Longrightarrow>
   feed c t W st body = ([], Inr (foldl trackFileHeader st body))"
proof (induction body arbitrary: st)
  case Nil
  then show ?case by simp
next
  case (Cons l body)
  then show ?case by (simp add: step_plain handleState_def)
qed

lemma state_foldl_trackFileHeader [simp]: "state (foldl trackFileHeader st body) = state st"
  by (induction body arbitrary: st) simp_all


lemma step_diff_line:
  "startsWith dl ''diff --git'' \<Longrightarrow> flushPending c t W st = (fl, Inr st') \<Longrightarrow>
   step c t W st dl
     = (fl, Inr (st'\<lparr>state := Diff, fileNameA := Some [], fileNameB := Some []\<rparr>))"
  by (simp add: step_def startsWith_diff_not_commit handleState_def trackFileHeader_diff_line)

lemma iterSideBySideDiff_feed:
  "feed c t W initialState lines = (out, Inr st) \<Longrightarrow>
   iterSideBySideDiff c t W lines
     = (out @ fst (flushPending c t W st),
        case snd (flushPending c t W st) of Inl e \<Rightarrow> Some e | Inr _ \<Rightarrow> None)"
  by (simp add: iterSideBySideDiff_def split: prod.splits sum.splits)

lemma iterSideBySideDiff_error:
  "feed c t W initialState lines = (out, Inl e) \<Longrightarrow>
   iterSideBySideDiff c t W lines = (out, Some e)"
  by (simp add: iterSideBySideDiff_def)

lemma flushPending_hunkLines:
  assumes "state st \<noteq> Hunk \<longrightarrow> hunkLines st = []" and "flushPending c t W st = (fl, Inr st')"
  shows "hunkLines st' = []" and "state st' = state st"
  using assms
  by (cases "state st";
      auto simp: flushPending_def yieldFileName_def yieldHunk_def split: prod.splits option.splits)+

lemma flushForCommit_hunkLines:
  assumes "state st \<noteq> Hunk \<longrightarrow> hunkLines st = []" and "flushForCommit c t W st = (fl, Inr st')"
  shows "hunkLines st' = []"
  using assms
  by (cases "state st";
      auto simp: flushForCommit_def yieldFileName_def yieldHunk_def split: prod.splits option.splits)

lemma step_invariant:
  assumes "state st \<noteq> Hunk \<longrightarrow> hunkLines st = []" and "step c t W st line = (ys, Inr st')"
  shows "state st' \<noteq> Hunk \<longrightarrow> hunkLines st' = []"
proof (cases "startsWith line ''commit ''")
  case True
  then show ?thesis
    using assms(2) flushForCommit_hunkLines [OF assms(1)]
    by (auto simp: step_def handleState_def split: prod.splits sum.splits)
next
  case nc: False
  show ?thesis
  proof (cases "startsWith line ''diff --git''")
    case True
    then show ?thesis
      using nc assms(2) flushPending_hunkLines(1) [OF assms(1)]
      by (auto simp: step_def handleState_def split: prod.splits sum.splits)
  next
    case nd: False
    show ?thesis
    proof (cases "startsWith line ''@@''")
      case True
      then show ?thesis
        using nc nd assms(2)
        by (auto simp: step_def split: prod.splits sum.splits)
    next
      case False
      then show ?thesis
        using nc nd assms
        by (cases "state st") (auto simp: step_def handleState_def split: prod.splits)
    qed
  qed
qed

lemma feed_invariant:
  "state st \<noteq> Hunk \<longrightarrow> hunkLines st = [] \<Longrightarrow> feed c t W st lines = (ys, Inr st') \<Longrightarrow>
   state st' \<noteq> Hunk \<longrightarrow> hunkLines st' = []"
proof (induction lines arbitrary: st ys)
  case Nil
  then show ?case by simp
next
  case (Cons l lines)
  obtain y1 r1 where s: "step c t W st l = (y1, r1)"
    by (cases "step c t W st l") auto
  show ?case
  proof (cases r1)
    case (Inl e)
    with s Cons.prems(2) show ?thesis by simp
  next
    case (Inr st1)
    obtain y2 where "feed c t W st1 lines = (y2, Inr st')"
      using s Inr Cons.prems(2) by (auto split: prod.splits)
    moreover have "state st1 \<noteq> Hunk \<longrightarrow> hunkLines st1 = []"
      using step_invariant [OF Cons.prems(1)] s Inr by simp
    ultimately show ?thesis using Cons.IH by blast
  qed
qed

lemma feed_initial_invariant:
  "feed c t W initialState lines = (ys, Inr st) \<Longrightarrow> state st \<noteq> Hunk \<longrightarrow> hunkLines st = []"
  by (rule feed_invariant [of initialState]) (simp_all add: initialState_def)

subsection \<open>The separator after a hunk\<close>

text \<open>
  Claim C9. In the Hunk state, a \<open>commit\<close> line yields the flushed hunk, then one
  horizontal separator, then the commit line itself; a \<open>diff --git\<close> line and a hunk
  header yield the flushed hunk and nothing after it, and so does the end of the
  stream.
\<close>

theorem separator_only_after_commit:
  assumes "state st = Hunk"
  shows "(startsWith line ''commit '' \<longrightarrow>
            fst (step c t W st line)
              = pendingHunk c t W st @ [HORIZONTAL_SEPARATOR c t, formatCommitLine c t line])
       \<and> (startsWith line ''diff --git'' \<longrightarrow> fst (step c t W st line) = pendingHunk c t W st)
       \<and> (startsWith line ''@@'' \<longrightarrow> fst (step c t W st line) = pendingHunk c t W st)
       \<and> (feed c t W initialState lines = (out, Inr st) \<longrightarrow>
            iterSideBySideDiff c t W lines = (out @ pendingHunk c t W st, None))"
  using assms
  by (simp add: step_commit_in_Hunk step_diff_in_Hunk step_header_in_Hunk
        iterSideBySideDiff_feed flushPending_Hunk)

theorem separator_only_after_commit_witness:
  "state \<lparr>state = Hunk, fileNameA = Some ''x'', fileNameB = Some ''x'', startA = Num 1,
          startB = Num 1, hunkHeaderLine = ''@@ -1 +1 @@'', hunkLines = [''-a'', ''+b'']\<rparr> = Hunk
   \<and> startsWith ''commit 1f'' ''commit ''
   \<and> fst (step config20 plainTheme noWrap
        \<lparr>state = Hunk, fileNameA = Some ''x'', fileNameB = Some ''x'', startA = Num 1,
         startB = Num 1, hunkHeaderLine = ''@@ -1 +1 @@'', hunkLines = [''-a'', ''+b'']\<rparr>
        ''commit 1f'')
     = [''@@ -1 +1 @@         '', '' 1 - a     1 + b    '', replicate 20 DASH,
        ''commit 1f           '']
   \<and> startsWith ''diff --git a/y b/y'' ''diff --git''
   \<and> fst (step config20 plainTheme noWrap
        \<lparr>state = Hunk, fileNameA = Some ''x'', fileNameB = Some ''x'', startA = Num 1,
         startB = Num 1, hunkHeaderLine = ''@@ -1 +1 @@'', hunkLines = [''-a'', ''+b'']\<rparr>
        ''diff --git a/y b/y'')
     = [''@@ -1 +1 @@         '', '' 1 - a     1 + b    '']
   \<and> startsWith ''@@ -5 +5 @@'' ''@@''
   \<and> fst (step config20 plainTheme noWrap
        \<lparr>state = Hunk, fileNameA = Some ''x'', fileNameB = Some ''x'', startA = Num 1,
         startB = Num 1, hunkHeaderLine = ''@@ -1 +1 @@'', hunkLines = [''-a'', ''+b'']\<rparr>
        ''@@ -5 +5 @@'')
     = [''@@ -1 +1 @@         '', '' 1 - a     1 + b    '']
   \<and> feed config20 plainTheme noWrap initialState
        [''diff --git a/x b/x'', ''--- a/x'', ''+++ b/x'', ''@@ -1 +1 @@'', ''-a'', ''+b'']
     = ([replicate 20 DASH, '' '' @ [SQUARE, SQUARE] @ '' x               '', replicate 20 DASH],
        Inr \<lparr>state = Hunk, fileNameA = Some ''x'', fileNameB = Some ''x'', startA = Num 1,
             startB = Num 1, hunkHeaderLine = ''@@ -1 +1 @@'', hunkLines = [''-a'', ''+b'']\<rparr>)
   \<and> iterSideBySideDiff config20 plainTheme noWrap
        [''diff --git a/x b/x'', ''--- a/x'', ''+++ b/x'', ''@@ -1 +1 @@'', ''-a'', ''+b'']
     = ([replicate 20 DASH, '' '' @ [SQUARE, SQUARE] @ '' x               '', replicate 20 DASH,
         ''@@ -1 +1 @@         '', '' 1 - a     1 + b    ''], None)"
proof -
  let ?st = "\<lparr>state = Hunk, fileNameA = Some ''x'', fileNameB = Some ''x'', startA = Num 1,
          startB = Num 1, hunkHeaderLine = ''@@ -1 +1 @@'', hunkLines = [''-a'', ''+b'']\<rparr>"
  have h: "state ?st = Hunk"
    by simp
  have p: "pendingHunk config20 plainTheme noWrap ?st
             = [''@@ -1 +1 @@         '', '' 1 - a     1 + b    '']"
    by code_simp
  have k: "HORIZONTAL_SEPARATOR config20 plainTheme = replicate 20 DASH"
      "formatCommitLine config20 plainTheme ''commit 1f'' = ''commit 1f           ''"
    by code_simp+
  have s: "startsWith ''commit 1f'' ''commit ''" "startsWith ''diff --git a/y b/y'' ''diff --git''"
      "startsWith ''@@ -5 +5 @@'' ''@@''"
    by (simp_all add: startsWith_def)
  have f: "feed config20 plainTheme noWrap initialState
        [''diff --git a/x b/x'', ''--- a/x'', ''+++ b/x'', ''@@ -1 +1 @@'', ''-a'', ''+b'']
     = ([replicate 20 DASH, '' '' @ [SQUARE, SQUARE] @ '' x               '', replicate 20 DASH],
        Inr ?st)"
    by code_simp
  note t = separator_only_after_commit [OF h, of _ config20 plainTheme noWrap]
  have c1: "fst (step config20 plainTheme noWrap ?st ''commit 1f'')
     = [''@@ -1 +1 @@         '', '' 1 - a     1 + b    '', replicate 20 DASH,
        ''commit 1f           '']"
    using t [THEN conjunct1, THEN mp, OF s(1)] unfolding p k by simp
  have c2: "fst (step config20 plainTheme noWrap ?st ''diff --git a/y b/y'')
     = [''@@ -1 +1 @@         '', '' 1 - a     1 + b    '']"
    using t [THEN conjunct2, THEN conjunct1, THEN mp, OF s(2)] unfolding p .
  have c3: "fst (step config20 plainTheme noWrap ?st ''@@ -5 +5 @@'')
     = [''@@ -1 +1 @@         '', '' 1 - a     1 + b    '']"
    using t [THEN conjunct2, THEN conjunct2, THEN conjunct1, THEN mp, OF s(3)] unfolding p .
  have c4: "iterSideBySideDiff config20 plainTheme noWrap
        [''diff --git a/x b/x'', ''--- a/x'', ''+++ b/x'', ''@@ -1 +1 @@'', ''-a'', ''+b'']
     = ([replicate 20 DASH, '' '' @ [SQUARE, SQUARE] @ '' x               '', replicate 20 DASH,
         ''@@ -1 +1 @@         '', '' 1 - a     1 + b    ''], None)"
    using t [THEN conjunct2, THEN conjunct2, THEN conjunct2, THEN mp, OF f] unfolding p by simp
  show ?thesis
    using h s c1 c2 c3 f c4 by blast
qed

subsection \<open>The flush at the end of the stream\<close>

lemma leftLines_append [simp]: "leftLines (r1 @ r2) = leftLines r1 @ leftLines r2"
  by (simp add: leftLines_def map_filter_def)

lemma rightLines_append [simp]: "rightLines (r1 @ r2) = rightLines r1 @ rightLines r2"
  by (simp add: rightLines_def map_filter_def)

lemma line_of_lineHalf: "prefix (lineHalf n l) @ text' (lineHalf n l) = l"
  by (cases l) (auto simp: lineHalf_def slice_def sliceFrom_def relIndex_def)

lemma leftLines_simps [simp]:
  "leftLines [] = []"
  "leftLines ((Some (lineHalf n l), y) # rs) = l # leftLines rs"
  "leftLines ((None, y) # rs) = leftLines rs"
  by (simp_all add: leftLines_def map_filter_def line_of_lineHalf)

lemma rightLines_simps [simp]:
  "rightLines [] = []"
  "rightLines ((x, Some (lineHalf n l)) # rs) = l # rightLines rs"
  "rightLines ((x, None) # rs) = rightLines rs"
  by (simp_all add: rightLines_def map_filter_def line_of_lineHalf)

lemma flushRows_lines:
  "leftLines (snd (snd (flushRows A B nA nB rows))) = leftLines rows @ A
   \<and> rightLines (snd (snd (flushRows A B nA nB rows))) = rightLines rows @ B"
  by (induction A B nA nB rows rule: flushRows.induct) simp_all

lemma linesOf_simps:
  "linesOfA fa [] = []"
  "linesOfB fb [] = []"
  "linesOfA fa (l # ls)
     = (if startsWith l ''-'' \<or> (\<not> startsWith l ''+'' \<and> truthy fa) then [l] else []) @ linesOfA fa ls"
  "linesOfB fb (l # ls)
     = (if \<not> startsWith l ''-'' \<and> (startsWith l ''+'' \<or> truthy fb) then [l] else []) @ linesOfB fb ls"
  by (simp_all add: linesOfA_def linesOfB_def)

lemma rowsLoop_lines:
  "leftLines (rowsLoop fa fb ls A B nA nB rows) = leftLines rows @ A @ linesOfA fa ls
   \<and> rightLines (rowsLoop fa fb ls A B nA nB rows) = rightLines rows @ B @ linesOfB fb ls"
proof (induction ls arbitrary: A B nA nB rows)
  case Nil
  obtain a b r where f: "flushRows A B nA nB rows = (a, b, r)"
    by (cases "flushRows A B nA nB rows") auto
  with flushRows_lines [of A B nA nB rows] show ?case by (simp add: linesOf_simps)
next
  case (Cons l ls)
  show ?case
  proof (cases "startsWith l ''-''")
    case True
    then show ?thesis
      using Cons.IH [of "A @ [l]" B nA nB rows] by (simp add: not_minus_and_plus linesOf_simps)
  next
    case nm: False
    show ?thesis
    proof (cases "startsWith l ''+''")
      case True
      then show ?thesis
        using nm Cons.IH [of A "B @ [l]" nA nB rows] by (simp add: linesOf_simps)
    next
      case False
      let ?A = "if truthy fa then [l] else []" and ?B = "if truthy fb then [l] else []"
      obtain a b r where f: "flushRows A B nA nB rows = (a, b, r)"
        by (cases "flushRows A B nA nB rows") auto
      have r: "leftLines r = leftLines rows @ A" "rightLines r = rightLines rows @ B"
        using flushRows_lines [of A B nA nB rows] f by simp_all
      have "rowsLoop fa fb (l # ls) A B nA nB rows = rowsLoop fa fb ls ?A ?B a b r"
        using nm False f by simp
      then show ?thesis
        using nm False Cons.IH [of ?A ?B a b r] by (simp add: r linesOf_simps)
    qed
  qed
qed

lemma hunkRows_lines:
  "leftLines (hunkRows rawLines nA nB fa fb) = linesOfA fa rawLines"
  "rightLines (hunkRows rawLines nA nB fa fb) = linesOfB fb rawLines"
  using rowsLoop_lines [of fa fb rawLines "[]" "[]" nA nB "[]"]
  by (simp_all add: hunkRows_def)

lemma shownRow_truncated:
  "\<not> WRAP_LINES c \<Longrightarrow> length (shownRow c t W r) = 1"
  by (simp add: shownRow_def shownHalf_def fitTextToWidth_def)

lemma length_concat_one:
  "(\<And>x. x \<in> set xs \<Longrightarrow> length (f x) = 1) \<Longrightarrow> length (concat (map f xs)) = length xs"
  by (induction xs) simp_all

lemma length_hunk_truncated:
  "\<not> WRAP_LINES c \<Longrightarrow>
   length (formatHunkSideBySide c t W headerLine rawLines nA nB fa fb)
     = 1 + length (hunkRows rawLines nA nB fa fb)"
  by (simp add: formatHunkSideBySide_shown length_concat_one shownRow_truncated fitTextToWidth_def)

text \<open>
  Claim C6, amended. When the input ends after a hunk header and any number of body
  lines, the run ends, without an error, with the hunk formatted from the header and
  all of these body lines, as it is on a transition. The hunk is its header lines and
  the lines of its rows; the left halves of the rows are, in order, the deletions of
  the body and, when \<open>fileNameA\<close> is not empty, its context lines, and the right halves
  the insertions and, when \<open>fileNameB\<close> is not empty, the context lines: no deletion
  and no insertion is dropped, and a context line is shown on the sides whose file
  name is not empty. When lines are not wrapped every row is one line. When the input
  ends after a \<open>diff --git\<close> line and any number of header lines, the run ends with the
  banner of the file names that these lines set, the separator, the body line and the
  separator; this is stated for the names on which the banner generator does not
  throw (\<open>fileNameB\<close> is defined or \<open>fileNameA\<close> is not empty).
\<close>

theorem end_of_stream_flush:
  assumes "feed c t W initialState pre = (out, Inr st)"
    and "flushPending c t W st = (fl, Inr st')"
    and "list_all (\<lambda>l. \<not> isTransition l) body"
  shows "(startsWith hdr ''@@'' \<and> parseHunkHeader hdr = Inr (a, b) \<longrightarrow>
            iterSideBySideDiff c t W (pre @ hdr # body)
              = (out @ fl @ formatHunkSideBySide c t W hdr body a b (fileNameA st) (fileNameB st),
                 None)
            \<and> formatHunkSideBySide c t W hdr body a b (fileNameA st) (fileNameB st)
              = map (\<lambda>l. HUNK_HEADER_COLOR t (padEnd l (SCREEN_WIDTH c)))
                  (fitTextToWidth c W hdr (SCREEN_WIDTH c))
                @ concat (map (shownRow c t W)
                    (hunkRows body a b (fileNameA st) (fileNameB st)))
            \<and> leftLines (hunkRows body a b (fileNameA st) (fileNameB st))
              = linesOfA (fileNameA st) body
            \<and> rightLines (hunkRows body a b (fileNameA st) (fileNameB st))
              = linesOfB (fileNameB st) body
            \<and> (\<not> WRAP_LINES c \<longrightarrow>
                 length (formatHunkSideBySide c t W hdr body a b (fileNameA st) (fileNameB st))
                   = 1 + length (hunkRows body a b (fileNameA st) (fileNameB st))))
       \<and> (startsWith dl ''diff --git''
          \<and> (fileNameB (foldl trackFileHeader
                 (st'\<lparr>state := Diff, fileNameA := Some [], fileNameB := Some []\<rparr>) body) \<noteq> None
              \<or> truthy (fileNameA (foldl trackFileHeader
                 (st'\<lparr>state := Diff, fileNameA := Some [], fileNameB := Some []\<rparr>) body))) \<longrightarrow>
            iterSideBySideDiff c t W (pre @ dl # body)
              = (out @ fl
                   @ fst (formatFileName c t
                       (fileNameA (foldl trackFileHeader
                          (st'\<lparr>state := Diff, fileNameA := Some [], fileNameB := Some []\<rparr>) body))
                       (fileNameB (foldl trackFileHeader
                          (st'\<lparr>state := Diff, fileNameA := Some [], fileNameB := Some []\<rparr>) body))),
                 None)
            \<and> (\<exists>banner.
                 fst (formatFileName c t
                       (fileNameA (foldl trackFileHeader
                          (st'\<lparr>state := Diff, fileNameA := Some [], fileNameB := Some []\<rparr>) body))
                       (fileNameB (foldl trackFileHeader
                          (st'\<lparr>state := Diff, fileNameA := Some [], fileNameB := Some []\<rparr>) body)))
                 = [HORIZONTAL_SEPARATOR c t, banner, HORIZONTAL_SEPARATOR c t]))"
proof (intro conjI impI)
  assume h: "startsWith hdr ''@@'' \<and> parseHunkHeader hdr = Inr (a, b)"
  let ?st1 = "st'\<lparr>hunkHeaderLine := hdr, startA := a, startB := b, state := Hunk\<rparr>"
  let ?st2 = "?st1\<lparr>hunkLines := hunkLines ?st1 @ body\<rparr>"
  have s: "step c t W st hdr = (fl, Inr ?st1)"
    using h assms(2) by (simp add: step_header)
  have hl: "hunkLines st' = []"
    using flushPending_hunkLines(1) [OF feed_initial_invariant [OF assms(1)] assms(2)] .
  have nm: "fileNameA st' = fileNameA st \<and> fileNameB st' = fileNameB st"
    using flushPending_names [OF assms(2)] .
  have f: "feed c t W ?st1 body = ([], Inr ?st2)"
    using assms(3) by (simp add: feed_hunk_body)
  have "feed c t W initialState (pre @ hdr # body) = (out @ fl, Inr ?st2)"
    using assms(1) s f by (simp add: feed_append)
  then show "iterSideBySideDiff c t W (pre @ hdr # body)
          = (out @ fl @ formatHunkSideBySide c t W hdr body a b (fileNameA st) (fileNameB st), None)"
    by (simp add: iterSideBySideDiff_feed flushPending_Hunk hl nm)
next
  show "formatHunkSideBySide c t W hdr body a b (fileNameA st) (fileNameB st)
              = map (\<lambda>l. HUNK_HEADER_COLOR t (padEnd l (SCREEN_WIDTH c)))
                  (fitTextToWidth c W hdr (SCREEN_WIDTH c))
                @ concat (map (shownRow c t W)
                    (hunkRows body a b (fileNameA st) (fileNameB st)))"
    by (rule formatHunkSideBySide_shown)
next
  show "leftLines (hunkRows body a b (fileNameA st) (fileNameB st)) = linesOfA (fileNameA st) body"
    by (rule hunkRows_lines)
next
  show "rightLines (hunkRows body a b (fileNameA st) (fileNameB st)) = linesOfB (fileNameB st) body"
    by (rule hunkRows_lines)
next
  assume "\<not> WRAP_LINES c"
  then show "length (formatHunkSideBySide c t W hdr body a b (fileNameA st) (fileNameB st))
                   = 1 + length (hunkRows body a b (fileNameA st) (fileNameB st))"
    by (rule length_hunk_truncated)
next
  let ?st1 = "st'\<lparr>state := Diff, fileNameA := Some [], fileNameB := Some []\<rparr>"
  let ?st2 = "foldl trackFileHeader ?st1 body"
  assume h: "startsWith dl ''diff --git''
             \<and> (fileNameB ?st2 \<noteq> None \<or> truthy (fileNameA ?st2))"
  have s: "step c t W st dl = (fl, Inr ?st1)"
    using h assms(2) by (intro step_diff_line) simp_all
  have f: "feed c t W ?st1 body = ([], Inr ?st2)"
    using assms(3) by (simp add: feed_diff_body)
  have r: "feed c t W initialState (pre @ dl # body) = (out @ fl, Inr ?st2)"
    using assms(1) s f by (simp add: feed_append)
  obtain banner where b: "formatFileName c t (fileNameA ?st2) (fileNameB ?st2)
      = ([HORIZONTAL_SEPARATOR c t, banner, HORIZONTAL_SEPARATOR c t], None)"
    using banner_complete h by blast
  show "iterSideBySideDiff c t W (pre @ dl # body)
      = (out @ fl @ fst (formatFileName c t (fileNameA ?st2) (fileNameB ?st2)), None)"
    using r b by (simp add: iterSideBySideDiff_feed flushPending_Diff)
  show "\<exists>banner. fst (formatFileName c t (fileNameA ?st2) (fileNameB ?st2))
                 = [HORIZONTAL_SEPARATOR c t, banner, HORIZONTAL_SEPARATOR c t]"
    using b by simp
qed

theorem end_of_stream_flush_witness:
  "feed config20 plainTheme noWrap initialState [''diff --git a/x b/x'', ''--- a/x'', ''+++ b/x'']
     = ([], Inr \<lparr>state = Diff, fileNameA = Some ''x'', fileNameB = Some ''x'',
                  startA = Num (- 1), startB = Num (- 1), hunkHeaderLine = [], hunkLines = []\<rparr>)
   \<and> flushPending config20 plainTheme noWrap
        \<lparr>state = Diff, fileNameA = Some ''x'', fileNameB = Some ''x'',
         startA = Num (- 1), startB = Num (- 1), hunkHeaderLine = [], hunkLines = []\<rparr>
     = ([replicate 20 DASH, '' '' @ [SQUARE, SQUARE] @ '' x               '', replicate 20 DASH],
        Inr \<lparr>state = Diff, fileNameA = Some ''x'', fileNameB = Some ''x'',
             startA = Num (- 1), startB = Num (- 1), hunkHeaderLine = [], hunkLines = []\<rparr>)
   \<and> list_all (\<lambda>l. \<not> isTransition l) [''-a'', ''+b'', '' c'']
   \<and> startsWith ''@@ -1 +1 @@'' ''@@''
   \<and> parseHunkHeader ''@@ -1 +1 @@'' = Inr (Num 1, Num 1)
   \<and> iterSideBySideDiff config20 plainTheme noWrap
        ([''diff --git a/x b/x'', ''--- a/x'', ''+++ b/x''] @ ''@@ -1 +1 @@'' # [''-a'', ''+b'', '' c''])
     = ([replicate 20 DASH, '' '' @ [SQUARE, SQUARE] @ '' x               '', replicate 20 DASH,
         ''@@ -1 +1 @@         '', '' 1 - a     1 + b    '', '' 2   c     2   c    ''], None)
   \<and> leftLines (hunkRows [''-a'', ''+b'', '' c''] (Num 1) (Num 1) (Some ''x'') (Some ''x''))
     = [''-a'', '' c'']
   \<and> rightLines (hunkRows [''-a'', ''+b'', '' c''] (Num 1) (Num 1) (Some ''x'') (Some ''x''))
     = [''+b'', '' c'']
   \<and> list_all (\<lambda>l. \<not> isTransition l) [''rename from y'', ''rename to z'']
   \<and> startsWith ''diff --git a/y b/z'' ''diff --git''
   \<and> iterSideBySideDiff config20 plainTheme noWrap
        ([''diff --git a/x b/x'', ''--- a/x'', ''+++ b/x'']
         @ ''diff --git a/y b/z'' # [''rename from y'', ''rename to z''])
     = ([replicate 20 DASH, '' '' @ [SQUARE, SQUARE] @ '' x               '', replicate 20 DASH,
         replicate 20 DASH, '' '' @ [SQUARE, SQUARE] @ '' y -> z          '', replicate 20 DASH],
        None)"
proof -
  let ?st = "\<lparr>state = Diff, fileNameA = Some ''x'', fileNameB = Some ''x'',
                  startA = Num (- 1), startB = Num (- 1), hunkHeaderLine = [], hunkLines = []\<rparr>"
  let ?banner = "[replicate 20 DASH, '' '' @ [SQUARE, SQUARE] @ '' x               '',
                  replicate 20 DASH]"
  have h1: "feed config20 plainTheme noWrap initialState
              [''diff --git a/x b/x'', ''--- a/x'', ''+++ b/x''] = ([], Inr ?st)"
    by code_simp
  have h2: "flushPending config20 plainTheme noWrap ?st = (?banner, Inr ?st)"
    by code_simp
  have h3: "list_all (\<lambda>l. \<not> isTransition l) [''-a'', ''+b'', '' c'']"
    by (simp add: isTransition_def startsWith_def)
  have h4: "list_all (\<lambda>l. \<not> isTransition l) [''rename from y'', ''rename to z'']"
    by (simp add: isTransition_def startsWith_def)
  have h5: "startsWith ''@@ -1 +1 @@'' ''@@''" "startsWith ''diff --git a/y b/z'' ''diff --git''"
    by (simp_all add: startsWith_def)
  have h6: "parseHunkHeader ''@@ -1 +1 @@'' = Inr (Num 1, Num 1)"
    by code_simp
  have e1: "formatHunkSideBySide config20 plainTheme noWrap ''@@ -1 +1 @@'' [''-a'', ''+b'', '' c'']
              (Num 1) (Num 1) (Some ''x'') (Some ''x'')
            = [''@@ -1 +1 @@         '', '' 1 - a     1 + b    '', '' 2   c     2   c    '']"
    by code_simp
  have e2: "linesOfA (Some ''x'') [''-a'', ''+b'', '' c''] = [''-a'', '' c'']"
      "linesOfB (Some ''x'') [''-a'', ''+b'', '' c''] = [''+b'', '' c'']"
    by code_simp+
  note th = end_of_stream_flush [OF h1 h2 h3, of "''@@ -1 +1 @@''" "Num 1" "Num 1",
        THEN conjunct1, THEN mp, OF conjI [OF h5(1) h6]]
  have c1: "iterSideBySideDiff config20 plainTheme noWrap
        ([''diff --git a/x b/x'', ''--- a/x'', ''+++ b/x''] @ ''@@ -1 +1 @@'' # [''-a'', ''+b'', '' c''])
     = ([replicate 20 DASH, '' '' @ [SQUARE, SQUARE] @ '' x               '', replicate 20 DASH,
         ''@@ -1 +1 @@         '', '' 1 - a     1 + b    '', '' 2   c     2   c    ''], None)"
    using th [THEN conjunct1] by (simp add: e1)
  have c2: "leftLines (hunkRows [''-a'', ''+b'', '' c''] (Num 1) (Num 1) (Some ''x'') (Some ''x''))
     = [''-a'', '' c'']"
    using th [THEN conjunct2, THEN conjunct2, THEN conjunct1] by (simp add: e2)
  have c3: "rightLines (hunkRows [''-a'', ''+b'', '' c''] (Num 1) (Num 1) (Some ''x'') (Some ''x''))
     = [''+b'', '' c'']"
    using th [THEN conjunct2, THEN conjunct2, THEN conjunct2, THEN conjunct1]
    by (simp add: e2)
  have e3: "fileNameB (foldl trackFileHeader
              (?st\<lparr>state := Diff, fileNameA := Some [], fileNameB := Some []\<rparr>)
                 [''rename from y'', ''rename to z'']) = Some ''z''"
      "fileNameA (foldl trackFileHeader
              (?st\<lparr>state := Diff, fileNameA := Some [], fileNameB := Some []\<rparr>)
                 [''rename from y'', ''rename to z'']) = Some ''y''"
    by code_simp+
  have e4: "formatFileName config20 plainTheme (Some ''y'') (Some ''z'')
            = ([replicate 20 DASH, '' '' @ [SQUARE, SQUARE] @ '' y -> z          '',
                replicate 20 DASH], None)"
    by code_simp
  have c4: "iterSideBySideDiff config20 plainTheme noWrap
        ([''diff --git a/x b/x'', ''--- a/x'', ''+++ b/x'']
         @ ''diff --git a/y b/z'' # [''rename from y'', ''rename to z''])
     = ([replicate 20 DASH, '' '' @ [SQUARE, SQUARE] @ '' x               '', replicate 20 DASH,
         replicate 20 DASH, '' '' @ [SQUARE, SQUARE] @ '' y -> z          '', replicate 20 DASH],
        None)"
    using end_of_stream_flush [OF h1 h2 h4, of _ _ _ "''diff --git a/y b/z''",
        THEN conjunct2, THEN mp, THEN conjunct1] h5(2)
    unfolding e3 e4 by simp
  show ?thesis
    using h1 h2 h3 h4 h5 h6 c1 c2 c3 c4 by blast
qed

text \<open>
  Claim C6 as stated fails: trailing lines can be dropped. When both file names are
  empty (the stream starts at a hunk header, or the header lines of the diff do not
  have the \<open>a/\<close> and \<open>b/\<close> prefixes), the context lines of the last hunk are in the
  buffer when the input ends, and the flush emits none of them.
\<close>

theorem end_of_stream_flush_counterexample:
  "iterSideBySideDiff config20 plainTheme noWrap [''@@ -1 +1 @@'', '' trailing'']
     = ([''@@ -1 +1 @@         ''], None)
   \<and> iterSideBySideDiff config20 plainTheme noWrap
        [''diff --git i/f w/f'', ''--- i/f'', ''+++ w/f'', ''@@ -1,2 +1,2 @@'', ''-old'', ''+new'',
         '' trailing'']
     = ([replicate 20 DASH, '' '' @ [SQUARE, SQUARE] @ ''                 '', replicate 20 DASH,
         ''@@ -1,2 +1,2 @@     '', '' 1 - old   1 + new  ''], None)"
  by code_simp

subsection \<open>Hunk headers\<close>

lemma startsWith_firstField:
  "x \<noteq> c \<Longrightarrow> startsWith (firstField c s) [x] = startsWith s [x]"
  by (cases s) (auto simp: firstField_takeWhile startsWith_def)

lemma parseHunkHeader_shape:
  "hunkHeaderShape line \<Longrightarrow> \<exists>a b. parseHunkHeader line = Inr (a, b)"
  "\<not> hunkHeaderShape line \<Longrightarrow> \<exists>e. parseHunkHeader line = Inl e"
  by (auto simp: hunkHeaderShape_def parseHunkHeader_def Let_def startsWith_firstField
        split: list.splits)

text \<open>
  Claim C4, amended. A hunk header is fatal exactly when it does not have the shape
  that the source checks: then the step throws, and the run ends with that error and
  with the lines yielded so far. A header of that shape is accepted whatever follows
  the signs: the start values are not checked to be numbers.
\<close>

theorem hunk_header_fatal_iff_shape:
  assumes "startsWith line ''@@''"
    and "feed c t W initialState pre = (out, Inr st)"
    and "flushPending c t W st = (fl, Inr st')"
  shows "(\<not> hunkHeaderShape line \<longrightarrow>
            (\<exists>e. step c t W st line = (fl, Inl e)
                \<and> iterSideBySideDiff c t W (pre @ line # rest) = (out @ fl, Some e)))
       \<and> (hunkHeaderShape line \<longrightarrow>
            (\<exists>a b. step c t W st line
                     = (fl, Inr (st'\<lparr>hunkHeaderLine := line, startA := a, startB := b,
                                     state := Hunk\<rparr>))))"
proof (intro conjI impI)
  assume "\<not> hunkHeaderShape line"
  then obtain e where "parseHunkHeader line = Inl e"
    using parseHunkHeader_shape(2) by blast
  then have s: "step c t W st line = (fl, Inl e)"
    using assms(1,3) by (simp add: step_header)
  then have "feed c t W initialState (pre @ line # rest) = (out @ fl, Inl e)"
    using assms(2) by (simp add: feed_append)
  then have "iterSideBySideDiff c t W (pre @ line # rest) = (out @ fl, Some e)"
    by (rule iterSideBySideDiff_error)
  with s show "\<exists>e. step c t W st line = (fl, Inl e)
                \<and> iterSideBySideDiff c t W (pre @ line # rest) = (out @ fl, Some e)"
    by blast
next
  assume "hunkHeaderShape line"
  then obtain a b where "parseHunkHeader line = Inr (a, b)"
    using parseHunkHeader_shape(1) by blast
  then have "step c t W st line
               = (fl, Inr (st'\<lparr>hunkHeaderLine := line, startA := a, startB := b, state := Hunk\<rparr>))"
    using assms(1,3) by (simp add: step_header)
  then show "\<exists>a b. step c t W st line
                     = (fl, Inr (st'\<lparr>hunkHeaderLine := line, startA := a, startB := b,
                                     state := Hunk\<rparr>))"
    by blast
qed

theorem hunk_header_fatal_iff_shape_witness:
  "startsWith ''@@ -1,3 @@'' ''@@''
   \<and> feed config20 plainTheme noWrap initialState [''commit 1f''] 
       = ([''commit 1f           ''], Inr initialState)
   \<and> flushPending config20 plainTheme noWrap initialState = ([], Inr initialState)
   \<and> \<not> hunkHeaderShape ''@@ -1,3 @@''
   \<and> iterSideBySideDiff config20 plainTheme noWrap ([''commit 1f''] @ ''@@ -1,3 @@'' # [''-a''])
       = ([''commit 1f           ''], Some TypeError)
   \<and> startsWith ''@@ -x +y @@'' ''@@''
   \<and> hunkHeaderShape ''@@ -x +y @@''
   \<and> step config20 plainTheme noWrap initialState ''@@ -x +y @@''
       = ([], Inr (initialState\<lparr>hunkHeaderLine := ''@@ -x +y @@'', startA := NaN, startB := NaN,
                                 state := Hunk\<rparr>))"
proof -
  have s: "startsWith ''@@ -1,3 @@'' ''@@''" "startsWith ''@@ -x +y @@'' ''@@''"
    by (simp_all add: startsWith_def)
  have f: "feed config20 plainTheme noWrap initialState [''commit 1f'']
       = ([''commit 1f           ''], Inr initialState)"
    by code_simp
  have p: "flushPending config20 plainTheme noWrap initialState = ([], Inr initialState)"
    by code_simp
  have n: "\<not> hunkHeaderShape ''@@ -1,3 @@''" "hunkHeaderShape ''@@ -x +y @@''"
    by code_simp+
  have e: "step config20 plainTheme noWrap initialState ''@@ -1,3 @@'' = ([], Inl TypeError)"
    by code_simp
  have g: "step config20 plainTheme noWrap initialState ''@@ -x +y @@''
       = ([], Inr (initialState\<lparr>hunkHeaderLine := ''@@ -x +y @@'', startA := NaN, startB := NaN,
                                 state := Hunk\<rparr>))"
    by code_simp
  have c1: "iterSideBySideDiff config20 plainTheme noWrap ([''commit 1f''] @ ''@@ -1,3 @@'' # [''-a''])
       = ([''commit 1f           ''], Some TypeError)"
    using hunk_header_fatal_iff_shape [OF s(1) f p, of "[''-a'']", THEN conjunct1, THEN mp, OF n(1)] e
    by auto
  show ?thesis
    using s f p n c1 g by blast
qed

text \<open>
  Claim C4 as stated fails: the header \<open>@@ -x +y @@\<close> has start values that are not
  numbers, and the run does not end with an error; the rows show \<open>NaN\<close> as the line
  number.
\<close>

theorem hunk_header_fatal_counterexample:
  "parseHunkHeader ''@@ -x +y @@'' = Inr (NaN, NaN)
   \<and> iterSideBySideDiff config20 plainTheme noWrap [''@@ -x +y @@'', ''-a'', ''+b'']
       = ([''@@ -x +y @@         '', ''NaN - a    NaN + b    ''], None)"
  by code_simp

section \<open>The width of the emitted lines\<close>

lemma plain_colors [simp]:
  "COMMIT_COLOR plainTheme = (\<lambda>s. s)" "COMMIT_SHA_COLOR plainTheme = (\<lambda>s. s)"
  "COMMIT_AUTHOR_COLOR plainTheme = (\<lambda>s. s)" "COMMIT_DATE_COLOR plainTheme = (\<lambda>s. s)"
  "BORDER_COLOR plainTheme = (\<lambda>s. s)" "FILE_NAME_COLOR plainTheme = (\<lambda>s. s)"
  "HUNK_HEADER_COLOR plainTheme = (\<lambda>s. s)" "DELETED_LINE_COLOR plainTheme = (\<lambda>s. s)"
  "DELETED_LINE_NO_COLOR plainTheme = (\<lambda>s. s)" "INSERTED_LINE_COLOR plainTheme = (\<lambda>s. s)"
  "INSERTED_LINE_NO_COLOR plainTheme = (\<lambda>s. s)" "UNMODIFIED_LINE_COLOR plainTheme = (\<lambda>s. s)"
  "UNMODIFIED_LINE_NO_COLOR plainTheme = (\<lambda>s. s)" "MISSING_LINE_COLOR plainTheme = (\<lambda>s. s)"
  by (simp_all add: plainTheme_def)

lemma lineColor_plain [simp]:
  "lineColorForLineHalf plainTheme h = (\<lambda>s. s)"
  "lineNoColorForLineHalf plainTheme h = (\<lambda>s. s)"
  by (simp_all add: lineColorForLineHalf_def lineNoColorForLineHalf_def split: option.splits)

lemma labelColorOf_plain: "labelColorOf plainTheme label = Some f \<Longrightarrow> f = (\<lambda>s. s)"
  by (auto simp: labelColorOf_def split: if_splits)

lemma width_separator: "SCREEN_WIDTH c \<le> int (length (HORIZONTAL_SEPARATOR c plainTheme))"
  by (simp add: HORIZONTAL_SEPARATOR_def length_padStartWith)

lemma length_sliceFrom:
  "0 \<le> b \<Longrightarrow> int (length (sliceFrom s b)) = int (length s) - min b (int (length s))"
  by (auto simp: sliceFrom_def relIndex_def)

lemma width_commit_line: "SCREEN_WIDTH c \<le> int (length (formatCommitLine c plainTheme line))"
proof (cases "labelColorOf plainTheme (firstField CHR '' '' line)")
  case None
  then show ?thesis
    by (simp add: formatCommitLine_def Let_def length_padEnd)
next
  case (Some f)
  have le: "length (firstField CHR '' '' line) \<le> length line"
    by (simp add: firstField_takeWhile length_takeWhile_le)
  show ?thesis
    using Some le labelColorOf_plain [OF Some]
    by (simp add: formatCommitLine_def Let_def length_padEnd length_sliceFrom)
qed

lemma width_banner:
  "l \<in> set (fst (formatFileName c plainTheme a b)) \<Longrightarrow> SCREEN_WIDTH c \<le> int (length l)"
  using width_separator [of c]
  by (auto simp: formatFileName_def fileNameBody_def length_padEnd split: if_splits option.splits)

lemma width_half:
  "LINE_WIDTH c \<le> int (length (formatHunkLineHalf c no pre txt (\<lambda>s. s) (\<lambda>s. s)))"
  by (simp add: formatHunkLineHalf_def length_padEnd length_padStart LINE_TEXT_WIDTH_def)

lemma width_halves:
  "h \<in> set (formatAndFitHunkLineHalf c W half (\<lambda>s. s) (\<lambda>s. s)) \<Longrightarrow>
   LINE_WIDTH c \<le> int (length h)"
  using width_half [of c]
  by (auto simp: formatAndFitHunkLineHalf_def Let_def split: list.splits)

lemma width_pairLines:
  assumes "n \<le> int (length blankA)" and "n \<le> int (length blankB)"
    and "\<And>x. x \<in> set xs \<Longrightarrow> n \<le> int (length x)"
    and "\<And>y. y \<in> set ys \<Longrightarrow> n \<le> int (length y)"
    and "l \<in> set (pairLines blankA blankB xs ys)"
  shows "2 * n \<le> int (length l)"
  using assms
proof (induction blankA blankB xs ys rule: pairLines.induct)
  case (1 blankA blankB)
  then show ?case by simp
next
  case (2 blankA blankB a as)
  then show ?case by (fastforce simp: )
next
  case (3 blankA blankB b bs)
  then show ?case by fastforce
next
  case (4 blankA blankB a as b bs)
  then show ?case by fastforce
qed

lemma width_blank: "LINE_WIDTH c \<le> int (length (BLANK_LINE c))"
  by (simp add: BLANK_LINE_def length_padStart)

lemma width_row:
  "l \<in> set (formatHunkLine c plainTheme W a b) \<Longrightarrow> 2 * LINE_WIDTH c \<le> int (length l)"
  unfolding formatHunkLine_def Let_def lineColor_plain
  by (rule width_pairLines [where n = "LINE_WIDTH c"]) (auto intro: width_blank width_halves)

lemma half_screen: "2 * (SCREEN_WIDTH c div 2) \<le> 2 * LINE_WIDTH c"
  by (simp add: LINE_WIDTH_def)

lemma width_hunk:
  assumes "l \<in> set (formatHunkSideBySide c plainTheme W headerLine rawLines nA nB fa fb)"
  shows "2 * (SCREEN_WIDTH c div 2) \<le> int (length l)"
proof -
  from assms consider
      (hdr) s where "l = padEnd s (SCREEN_WIDTH c)"
    | (row) x y where "l \<in> set (formatHunkLine c plainTheme W x y)"
    by (auto simp: formatHunkSideBySide_rows)
  then show ?thesis
  proof cases
    case hdr
    then show ?thesis by (simp add: length_padEnd)
  next
    case row
    from width_row [OF row] half_screen [of c] show ?thesis by linarith
  qed
qed

lemma half_le: "2 * (SCREEN_WIDTH c div 2) \<le> SCREEN_WIDTH c"
  by simp

lemma width_flushPending: "wide c (fst (flushPending c plainTheme W st))"
proof (cases "state st")
  case Commit
  then show ?thesis by (simp add: flushPending_Commit)
next
  case Diff
  show ?thesis
    using width_banner [of _ c "fileNameA st" "fileNameB st"] half_le [of c]
    by (fastforce simp: flushPending_Diff [OF Diff])
next
  case Hunk
  show ?thesis
    using width_hunk by (simp add: flushPending_Hunk [OF Hunk])
qed

lemma width_flushForCommit: "wide c (fst (flushForCommit c plainTheme W st))"
proof (cases "state st")
  case Commit
  then show ?thesis by (simp add: flushForCommit_def)
next
  case Diff
  show ?thesis
    using width_banner [of _ c "fileNameA st" "fileNameB st"] half_le [of c]
    by (fastforce simp: flushForCommit_def Diff yieldFileName_def split: prod.splits option.splits)
next
  case Hunk
  show ?thesis
    using width_hunk width_separator [of c] half_le [of c]
    by (fastforce simp: flushForCommit_Hunk [OF Hunk])
qed

lemma width_handleState: "wide c (fst (handleState c plainTheme st line))"
  using width_commit_line [of c line] half_le [of c]
  by (cases "state st") (auto simp: handleState_def)

lemma fst_step_commit:
  "startsWith line ''commit '' \<Longrightarrow>
   fst (step c t W st line)
     = fst (flushForCommit c t W st)
       @ (case snd (flushForCommit c t W st) of
            Inl e \<Rightarrow> []
          | Inr st' \<Rightarrow> fst (handleState c t (st'\<lparr>state := Commit\<rparr>) line))"
  by (simp add: step_def split: prod.splits sum.splits)

lemma fst_step_diff:
  "\<not> startsWith line ''commit '' \<Longrightarrow> startsWith line ''diff --git'' \<Longrightarrow>
   fst (step c t W st line)
     = fst (flushPending c t W st)
       @ (case snd (flushPending c t W st) of
            Inl e \<Rightarrow> []
          | Inr st' \<Rightarrow>
              fst (handleState c t
                     (st'\<lparr>state := Diff, fileNameA := Some [], fileNameB := Some []\<rparr>) line))"
  by (simp add: step_def split: prod.splits sum.splits)

lemma fst_step_header:
  "startsWith line ''@@'' \<Longrightarrow> fst (step c t W st line) = fst (flushPending c t W st)"
  by (simp add: step_header split: prod.splits sum.splits)

lemma width_step: "wide c (fst (step c plainTheme W st line))"
proof (cases "startsWith line ''commit ''")
  case True
  show ?thesis
    using width_flushForCommit [of c W st] width_handleState [of c _ line]
    by (auto simp: fst_step_commit [OF True] split: sum.splits)
next
  case nc: False
  show ?thesis
  proof (cases "startsWith line ''diff --git''")
    case True
    show ?thesis
      using width_flushPending [of c W st] width_handleState [of c _ line]
      by (auto simp: fst_step_diff [OF nc True] split: sum.splits)
  next
    case nd: False
    show ?thesis
    proof (cases "startsWith line ''@@''")
      case True
      show ?thesis
        using width_flushPending [of c W st] by (simp add: fst_step_header [OF True])
    next
      case False
      with nc nd have "\<not> isTransition line"
        by (simp add: isTransition_def)
      then show ?thesis
        using width_handleState [of c st line] by (simp add: step_plain)
    qed
  qed
qed

lemma width_feed: "wide c (fst (feed c plainTheme W st lines))"
proof (induction lines arbitrary: st)
  case Nil
  show ?case by simp
next
  case (Cons l lines)
  obtain ys r where s: "step c plainTheme W st l = (ys, r)"
    by (cases "step c plainTheme W st l") auto
  have w: "wide c ys"
    using width_step [of c W st l] s by simp
  show ?case
  proof (cases r)
    case (Inl e)
    with s w show ?thesis by simp
  next
    case (Inr st1)
    obtain zs r' where f: "feed c plainTheme W st1 lines = (zs, r')"
      by (cases "feed c plainTheme W st1 lines") auto
    have "wide c zs"
      using Cons.IH [of st1] f by simp
    with s w Inr f show ?thesis by auto
  qed
qed

lemma width_stream_lower:
  "\<forall>l \<in> set (fst (iterSideBySideDiff c plainTheme W lines)).
     2 * (SCREEN_WIDTH c div 2) \<le> int (length l)"
proof -
  obtain ys r where f: "feed c plainTheme W initialState lines = (ys, r)"
    by (cases "feed c plainTheme W initialState lines") auto
  have w: "wide c ys"
    using width_feed [of c W initialState lines] f by simp
  show ?thesis
  proof (cases r)
    case (Inl e)
    with f w show ?thesis by (simp add: iterSideBySideDiff_def)
  next
    case (Inr st)
    obtain zs r' where p: "flushPending c plainTheme W st = (zs, r')"
      by (cases "flushPending c plainTheme W st") auto
    have "wide c zs"
      using width_flushPending [of c W st] p by simp
    with f w Inr p show ?thesis
      by (cases r') (auto simp: iterSideBySideDiff_def)
  qed
qed

subsection \<open>Exact width when everything fits\<close>

lemma digits_length: "0 < w \<Longrightarrow> n < 10 ^ w \<Longrightarrow> length (digits n) \<le> w"
proof (induction n arbitrary: w rule: digits.induct)
  case (1 n)
  show ?case
  proof (cases "n < 10")
    case True
    with "1.prems" show ?thesis by (simp add: digits.simps [of n])
  next
    case False
    then have "10 ^ 1 \<le> n" by simp
    with "1.prems" have "(10::nat) ^ 1 < 10 ^ w" by linarith
    then have w: "1 < w" by (simp only: power_strict_increasing_iff)
    then obtain v where v: "w = Suc v" "0 < v" by (cases w) auto
    from "1.prems" v have "n div 10 < 10 ^ v"
      by (simp add: less_mult_imp_div_less mult.commute) 
    with "1.IH" [OF False v(2)] have "length (digits (n div 10)) \<le> v" .
    with False v show ?thesis by (simp add: digits.simps [of n])
  qed
qed

lemma toString_length:
  assumes "0 \<le> a" and "a < 10 ^ nat w" and "1 \<le> w"
  shows "int (length (toString (Num a))) \<le> w"
proof -
  have "nat a < 10 ^ nat w"
    using assms by (metis nat_less_iff of_nat_numeral of_nat_power zero_le_numeral zero_le_power)
  then have "length (digits (nat a)) \<le> nat w"
    using assms(3) by (intro digits_length) auto
  with assms show ?thesis by simp
qed

lemma length_slice_zero: "0 \<le> w \<Longrightarrow> int (length (slice s 0 w)) \<le> w"
  by (auto simp: slice_def relIndex_def)

lemma length_slice_one: "length (slice s 0 1) \<le> 1"
  by (auto simp: slice_def relIndex_def)

lemma fit_segments:
  assumes "segmentsFit c W" and "0 \<le> w" and "seg \<in> set (fitTextToWidth c W txt w)"
  shows "int (length seg) \<le> w"
  using assms length_slice_zero [of w "txt"]
  by (auto simp: segmentsFit_def fitTextToWidth_def split: if_splits)

lemma fitConfig_widths:
  assumes "fitConfig c"
  shows "LINE_WIDTH c = SCREEN_WIDTH c div 2" and "0 \<le> LINE_TEXT_WIDTH c"
    and "2 * LINE_WIDTH c = SCREEN_WIDTH c"
    and "LINE_NUMBER_WIDTH c + LINE_PREFIX_WIDTH c + 2 + LINE_TEXT_WIDTH c = LINE_WIDTH c"
  using assms by (auto simp: fitConfig_def LINE_WIDTH_def LINE_TEXT_WIDTH_def)

lemma exact_half:
  assumes "fitConfig c" and "int (length no) \<le> LINE_NUMBER_WIDTH c"
    and "int (length pre) \<le> LINE_PREFIX_WIDTH c" and "int (length seg) \<le> LINE_TEXT_WIDTH c"
  shows "int (length (formatHunkLineHalf c no pre seg (\<lambda>s. s) (\<lambda>s. s))) = LINE_WIDTH c"
  using assms fitConfig_widths(4) [OF assms(1)]
  by (simp add: formatHunkLineHalf_def length_padEnd length_padStart)


lemma exact_halves:
  assumes "fitConfig c" and "segmentsFit c W" and "halfFits c h"
    and "x \<in> set (formatAndFitHunkLineHalf c W h (\<lambda>s. s) (\<lambda>s. s))"
  shows "int (length x) = LINE_WIDTH c"
proof -
  let ?no = "case h of None \<Rightarrow> [] | Some r \<Rightarrow> number r"
  let ?pre = "case h of None \<Rightarrow> [] | Some r \<Rightarrow> prefix r"
  let ?tx = "case h of None \<Rightarrow> [] | Some r \<Rightarrow> text' r"
  have c: "1 \<le> LINE_NUMBER_WIDTH c" "1 \<le> LINE_PREFIX_WIDTH c"
    using assms(1) by (simp_all add: fitConfig_def)
  have no: "int (length ?no) \<le> LINE_NUMBER_WIDTH c"
    using assms(3) c by (auto simp: halfFits_def split: option.splits)
  have pre: "int (length ?pre) \<le> LINE_PREFIX_WIDTH c"
    using assms(3) c by (auto simp: halfFits_def split: option.splits)
  have seg: "int (length g) \<le> LINE_TEXT_WIDTH c"
    if "g \<in> set (fitTextToWidth c W ?tx (LINE_TEXT_WIDTH c))" for g
    using fit_segments [OF assms(2) fitConfig_widths(2) [OF assms(1)] that] .
  define segs where "segs = fitTextToWidth c W ?tx (LINE_TEXT_WIDTH c)"
  have x: "x \<in> set (case segs of [] \<Rightarrow> []
             | g # gs \<Rightarrow> formatHunkLineHalf c ?no ?pre g (\<lambda>s. s) (\<lambda>s. s)
                 # map (\<lambda>g. formatHunkLineHalf c [] [] g (\<lambda>s. s) (\<lambda>s. s)) gs)"
    using assms(4) by (simp add: formatAndFitHunkLineHalf_def Let_def segs_def)
  show ?thesis
  proof (cases segs)
    case Nil
    with x show ?thesis by simp
  next
    case (Cons g gs)
    have g: "int (length g) \<le> LINE_TEXT_WIDTH c"
      using seg [of g] Cons by (simp add: segs_def)
    have gs: "int (length g') \<le> LINE_TEXT_WIDTH c" if "g' \<in> set gs" for g'
      using seg [of g'] Cons that by (simp add: segs_def)
    from x Cons consider
        (first) "x = formatHunkLineHalf c ?no ?pre g (\<lambda>s. s) (\<lambda>s. s)"
      | (rest) g' where "g' \<in> set gs" "x = formatHunkLineHalf c [] [] g' (\<lambda>s. s) (\<lambda>s. s)"
      by auto
    then show ?thesis
    proof cases
      case first
      show ?thesis
        unfolding first by (rule exact_half [OF assms(1) no pre g])
    next
      case rest
      show ?thesis
        unfolding rest(2) using c by (intro exact_half [OF assms(1) _ _ gs [OF rest(1)]]) auto
    qed
  qed
qed

lemma exact_pairLines:
  assumes "int (length blankA) = n" and "int (length blankB) = n"
    and "\<And>x. x \<in> set xs \<Longrightarrow> int (length x) = n"
    and "\<And>y. y \<in> set ys \<Longrightarrow> int (length y) = n"
    and "l \<in> set (pairLines blankA blankB xs ys)"
  shows "int (length l) = 2 * n"
  using assms
proof (induction blankA blankB xs ys rule: pairLines.induct)
  case (1 blankA blankB)
  then show ?case by simp
next
  case (2 blankA blankB a as)
  then show ?case by fastforce
next
  case (3 blankA blankB b bs)
  then show ?case by fastforce
next
  case (4 blankA blankB a as b bs)
  then show ?case by fastforce
qed

lemma exact_blank: "fitConfig c \<Longrightarrow> int (length (BLANK_LINE c)) = LINE_WIDTH c"
  by (auto simp: BLANK_LINE_def length_padStart fitConfig_def LINE_WIDTH_def)

lemma exact_row:
  assumes "fitConfig c" and "segmentsFit c W" and "halfFits c a" and "halfFits c b"
    and "l \<in> set (formatHunkLine c plainTheme W a b)"
  shows "int (length l) = SCREEN_WIDTH c"
proof -
  have "int (length l) = 2 * LINE_WIDTH c"
    using assms(5) unfolding formatHunkLine_def Let_def lineColor_plain
    by (rule exact_pairLines [rotated 4])
       (auto intro: exact_blank assms exact_halves [OF assms(1,2)])
  then show ?thesis
    using fitConfig_widths(3) [OF assms(1)] by simp
qed


lemma halfFits_lineHalf:
  assumes "1 \<le> LINE_NUMBER_WIDTH c" and "0 \<le> a" and "a < 10 ^ nat (LINE_NUMBER_WIDTH c)"
  shows "halfFits c (Some (lineHalf (Num a) l))"
  using toString_length [OF assms(2,3,1)] length_slice_one [of l]
  by (simp add: halfFits_def lineHalf_def del: toString.simps)

lemma halfFits_None [simp]: "halfFits c None"
  by (simp add: halfFits_def)

lemma flushRows_fit:
  assumes "1 \<le> LINE_NUMBER_WIDTH c"
  shows "nA = Num a \<Longrightarrow> nB = Num b \<Longrightarrow> 0 \<le> a \<Longrightarrow> 0 \<le> b \<Longrightarrow>
    a + int (length A) \<le> 10 ^ nat (LINE_NUMBER_WIDTH c) \<Longrightarrow>
    b + int (length B) \<le> 10 ^ nat (LINE_NUMBER_WIDTH c) \<Longrightarrow>
    \<forall>r \<in> set rows. rowFits c r \<Longrightarrow>
    \<forall>r \<in> set (snd (snd (flushRows A B nA nB rows))). rowFits c r"
proof (induction A B nA nB rows arbitrary: a b rule: flushRows.induct)
  case (1 lineNoA lineNoB rows)
  then show ?case by simp
next
  case (2 x linesA lineNoA lineNoB rows)
  have h: "halfFits c (Some (lineHalf (Num a) x))"
    using "2.prems" by (intro halfFits_lineHalf [OF assms]) auto
  have "\<forall>r \<in> set (snd (snd (flushRows linesA [] (incr lineNoA) lineNoB
            (rows @ [(Some (lineHalf lineNoA x), None)])))). rowFits c r"
    using "2.prems" h by (intro "2.IH" [of "a + 1" b]) (auto simp: rowFits_def)
  then show ?case by simp
next
  case (3 y linesB lineNoA lineNoB rows)
  have h: "halfFits c (Some (lineHalf (Num b) y))"
    using "3.prems" by (intro halfFits_lineHalf [OF assms]) auto
  have "\<forall>r \<in> set (snd (snd (flushRows [] linesB lineNoA (incr lineNoB)
            (rows @ [(None, Some (lineHalf lineNoB y))])))). rowFits c r"
    using "3.prems" h by (intro "3.IH" [of a "b + 1"]) (auto simp: rowFits_def)
  then show ?case by simp
next
  case (4 x linesA y linesB lineNoA lineNoB rows)
  have h: "halfFits c (Some (lineHalf (Num a) x))" "halfFits c (Some (lineHalf (Num b) y))"
    using "4.prems" by (auto intro!: halfFits_lineHalf [OF assms])
  have "\<forall>r \<in> set (snd (snd (flushRows linesA linesB (incr lineNoA) (incr lineNoB)
            (rows @ [(Some (lineHalf lineNoA x), Some (lineHalf lineNoB y))])))). rowFits c r"
    using "4.prems" h by (intro "4.IH" [of "a + 1" "b + 1"]) (auto simp: rowFits_def)
  then show ?case by simp
qed

lemma rowsLoop_fit:
  assumes "1 \<le> LINE_NUMBER_WIDTH c"
  shows "0 \<le> a \<Longrightarrow> 0 \<le> b \<Longrightarrow>
    a + int (length A) + int (length ls) \<le> 10 ^ nat (LINE_NUMBER_WIDTH c) \<Longrightarrow>
    b + int (length B) + int (length ls) \<le> 10 ^ nat (LINE_NUMBER_WIDTH c) \<Longrightarrow>
    \<forall>r \<in> set rows. rowFits c r \<Longrightarrow>
    \<forall>r \<in> set (rowsLoop fa fb ls A B (Num a) (Num b) rows). rowFits c r"
proof (induction ls arbitrary: A B a b rows)
  case Nil
  obtain rs where rs: "flushRows A B (Num a) (Num b) rows
        = (Num (a + int (length A)), Num (b + int (length B)), rows @ rs)"
    using flushRows_numbers [of A B a b rows] by auto
  have "\<forall>r \<in> set (snd (snd (flushRows A B (Num a) (Num b) rows))). rowFits c r"
    using Nil by (intro flushRows_fit [OF assms, of _ a _ b]) simp_all
  then show ?case by (simp add: rs)
next
  case (Cons l ls)
  have la: "a + int (length (A @ [l])) + int (length ls) \<le> 10 ^ nat (LINE_NUMBER_WIDTH c)"
    and lb: "b + int (length (B @ [l])) + int (length ls) \<le> 10 ^ nat (LINE_NUMBER_WIDTH c)"
    and la': "a + int (length A) + int (length ls) \<le> 10 ^ nat (LINE_NUMBER_WIDTH c)"
    and lb': "b + int (length B) + int (length ls) \<le> 10 ^ nat (LINE_NUMBER_WIDTH c)"
    using Cons.prems(3,4) by simp_all
  show ?case
  proof (cases "startsWith l ''-''")
    case True
    have "\<forall>r \<in> set (rowsLoop fa fb ls (A @ [l]) B (Num a) (Num b) rows). rowFits c r"
      by (rule Cons.IH [OF Cons.prems(1,2) la lb' Cons.prems(5)])
    with True show ?thesis by simp
  next
    case nm: False
    show ?thesis
    proof (cases "startsWith l ''+''")
      case True
      have "\<forall>r \<in> set (rowsLoop fa fb ls A (B @ [l]) (Num a) (Num b) rows). rowFits c r"
        by (rule Cons.IH [OF Cons.prems(1,2) la' lb Cons.prems(5)])
      with nm True show ?thesis by simp
    next
      case False
      with nm have False: "\<not> (startsWith l ''-'' \<or> startsWith l ''+'')" by simp
    let ?A = "if truthy fa then [l] else []" and ?B = "if truthy fb then [l] else []"
    obtain rs where rs: "flushRows A B (Num a) (Num b) rows
          = (Num (a + int (length A)), Num (b + int (length B)), rows @ rs)"
      using flushRows_numbers [of A B a b rows] by auto
    have "\<forall>r \<in> set (snd (snd (flushRows A B (Num a) (Num b) rows))). rowFits c r"
      using Cons.prems by (intro flushRows_fit [OF assms, of _ a _ b]) simp_all
    then have fit: "\<forall>r \<in> set (rows @ rs). rowFits c r"
      by (simp only: rs snd_conv)
    have "\<forall>r \<in> set (rowsLoop fa fb ls ?A ?B (Num (a + int (length A)))
              (Num (b + int (length B))) (rows @ rs)). rowFits c r"
      using Cons.prems(1-4) by (intro Cons.IH fit) simp_all
    then show ?thesis
      using False by (simp add: rs)
    qed
  qed
qed


lemma exact_separator:
  "0 \<le> SCREEN_WIDTH c \<Longrightarrow> int (length (HORIZONTAL_SEPARATOR c plainTheme)) = SCREEN_WIDTH c"
  by (simp add: HORIZONTAL_SEPARATOR_def length_padStartWith)

lemma exact_hunk:
  assumes "fitConfig c" and "segmentsFit c W" and "0 \<le> a" and "0 \<le> b"
    and "a + int (length rawLines) \<le> 10 ^ nat (LINE_NUMBER_WIDTH c)"
    and "b + int (length rawLines) \<le> 10 ^ nat (LINE_NUMBER_WIDTH c)"
    and "l \<in> set (formatHunkSideBySide c plainTheme W headerLine rawLines (Num a) (Num b) fa fb)"
  shows "int (length l) = SCREEN_WIDTH c"
proof -
  have c: "1 \<le> LINE_NUMBER_WIDTH c" "0 \<le> SCREEN_WIDTH c"
    using assms(1) by (simp_all add: fitConfig_def)
  have rows: "\<forall>r \<in> set (hunkRows rawLines (Num a) (Num b) fa fb). rowFits c r"
    unfolding hunkRows_def using assms(3-6) by (intro rowsLoop_fit [OF c(1)]) simp_all
  from assms(7) consider
      (hdr) s where "s \<in> set (fitTextToWidth c W headerLine (SCREEN_WIDTH c))"
        "l = padEnd s (SCREEN_WIDTH c)"
    | (row) x y where "(x, y) \<in> set (hunkRows rawLines (Num a) (Num b) fa fb)"
        "l \<in> set (formatHunkLine c plainTheme W x y)"
    by (auto simp: formatHunkSideBySide_rows)
  then show ?thesis
  proof cases
    case hdr
    from fit_segments [OF assms(2) c(2) hdr(1)] show ?thesis
      by (simp add: hdr(2) length_padEnd)
  next
    case row
    from rows row(1) have "halfFits c x" "halfFits c y"
      by (auto simp: rowFits_def)
    then show ?thesis
      by (rule exact_row [OF assms(1,2) _ _ row(2)])
  qed
qed

lemma exact_banner:
  assumes "fitConfig c" and "nameFits c fa" and "nameFits c fb"
    and "l \<in> set (fst (formatFileName c plainTheme fa fb))"
  shows "int (length l) = SCREEN_WIDTH c"
proof -
  have c: "8 \<le> SCREEN_WIDTH c" "even (SCREEN_WIDTH c)"
    using assms(1) by (simp_all add: fitConfig_def)
  then have e: "2 * (SCREEN_WIDTH c div 2) = SCREEN_WIDTH c"
    by simp
  have s: "int (length (HORIZONTAL_SEPARATOR c plainTheme)) = SCREEN_WIDTH c"
    using c by (intro exact_separator) simp
  show ?thesis
    using assms(2-4) s c(1) e
    by (auto simp: formatFileName_def fileNameBody_def length_padEnd nameFits_def truthy_def
          templ_def split: if_splits option.splits)
qed

lemma firstField_proper:
  assumes "firstField CHR '' '' line \<noteq> line"
  shows "length (firstField CHR '' '' line) < length line"
proof -
  let ?f = "takeWhile (\<lambda>y. y \<noteq> CHR '' '') line"
  have le: "length ?f \<le> length line"
    by (rule length_takeWhile_le)
  have "length ?f \<noteq> length line"
  proof
    assume e: "length ?f = length line"
    have "?f = take (length ?f) line"
      by (rule takeWhile_eq_take)
    then have "?f = line"
      by (simp only: e take_all order_refl)
    with assms show False
      by (simp add: firstField_takeWhile)
  qed
  with le show ?thesis
    by (simp add: firstField_takeWhile)
qed

lemma exact_commit_line:
  assumes "0 \<le> SCREEN_WIDTH c" and "int (length line) \<le> SCREEN_WIDTH c"
    and "line \<noteq> ''commit''" and "line \<noteq> ''Author:''" and "line \<noteq> ''Date:''"
  shows "int (length (formatCommitLine c plainTheme line)) = SCREEN_WIDTH c"
proof (cases "labelColorOf plainTheme (firstField CHR '' '' line)")
  case None
  then show ?thesis
    using assms(2) by (simp add: formatCommitLine_def Let_def length_padEnd)
next
  case (Some f)
  then have "firstField CHR '' '' line \<in> {''commit'', ''Author:'', ''Date:''}"
    by (auto simp: labelColorOf_def split: if_splits)
  with assms(3-5) have "firstField CHR '' '' line \<noteq> line"
    by auto
  then have lt: "length (firstField CHR '' '' line) < length line"
    by (rule firstField_proper)
  show ?thesis
    using Some lt assms(2) labelColorOf_plain [OF Some]
    by (simp add: formatCommitLine_def Let_def length_padEnd length_sliceFrom)
qed

lemma startsWith_length:
  assumes "startsWith s p"
  shows "length p \<le> length s"
proof -
  from assms have "length (take (length p) s) = length p"
    by (simp add: startsWith_def)
  then show ?thesis by simp
qed

lemma matchSideB_length: "matchSideB u = Some (Some g) \<Longrightarrow> length g \<le> length u"
  by (auto simp: matchSideB_def Let_def split: if_splits)

lemma matchAnd_length: "matchAnd s = Some (Some g) \<Longrightarrow> length g \<le> length s"
  using matchSideB_length [of "drop 5 s" g]
  by (auto simp: matchAnd_def split: if_splits)

lemma regex_cases:
  assumes "BINARY_FILES_DIFF_REGEX line = Some (ga, gb)"
  shows "startsWith line ''Binary files ''
       \<and> ((\<exists>k. ga = Some (take k (drop 2 (drop 13 line)))
                \<and> matchAnd (drop k (drop 2 (drop 13 line))) = Some gb)
          \<or> (ga = None \<and> matchAnd (drop 9 (drop 13 line)) = Some gb))"
proof -
  have sw: "startsWith line ''Binary files ''"
    using assms unfolding BINARY_FILES_DIFF_REGEX_def by (simp split: if_splits)
  show ?thesis
  proof (cases "startsWith (drop 13 line) ''a/''")
    case True
    let ?r1 = "drop 2 (drop 13 line)"
    let ?f = "List.find (\<lambda>k. matchAnd (drop k ?r1) \<noteq> None)
                (rev [0..<Suc (length (takeWhile (\<lambda>x. \<not> isLineTerminator x) ?r1))])"
    have eq: "BINARY_FILES_DIFF_REGEX line
        = (case ?f of None \<Rightarrow> None
           | Some k \<Rightarrow> (case matchAnd (drop k ?r1) of None \<Rightarrow> None
                        | Some g2 \<Rightarrow> Some (Some (take k ?r1), g2)))"
      unfolding BINARY_FILES_DIFF_REGEX_def Let_def using sw True by simp
    show ?thesis
    proof (cases ?f)
      case None
      with assms eq show ?thesis by simp
    next
      case (Some k)
      with assms eq have "ga = Some (take k ?r1) \<and> matchAnd (drop k ?r1) = Some gb"
        by (cases "matchAnd (drop k ?r1)") simp_all
      with sw show ?thesis by blast
    qed
  next
    case False
    have eq: "BINARY_FILES_DIFF_REGEX line
        = (if startsWith (drop 13 line) ''/dev/null'' then
             (case matchAnd (drop 9 (drop 13 line)) of None \<Rightarrow> None
              | Some g2 \<Rightarrow> Some (None, g2))
           else None)"
      unfolding BINARY_FILES_DIFF_REGEX_def Let_def using sw False by simp
    from assms eq have "ga = None \<and> matchAnd (drop 9 (drop 13 line)) = Some gb"
      by (cases "matchAnd (drop 9 (drop 13 line))") (simp_all split: if_splits)
    with sw show ?thesis by blast
  qed
qed

lemma regex_lengths:
  assumes "BINARY_FILES_DIFF_REGEX line = Some (ga, gb)"
  shows "(case ga of None \<Rightarrow> True | Some g \<Rightarrow> length g + 13 \<le> length line)
       \<and> (case gb of None \<Rightarrow> True | Some g \<Rightarrow> length g + 13 \<le> length line)"
proof -
  note rc = regex_cases [OF assms]
  from rc have len: "13 \<le> length line"
    using startsWith_length by fastforce
  have b: "length g + 13 \<le> length line" if "matchAnd (drop k (drop 13 line)) = Some (Some g)"
    for k g
    using matchAnd_length [OF that] len by simp
  have gb: "case gb of None \<Rightarrow> True | Some g \<Rightarrow> length g + 13 \<le> length line"
  proof (cases gb)
    case None
    then show ?thesis by simp
  next
    case (Some g)
    from rc consider k where "matchAnd (drop k (drop 2 (drop 13 line))) = Some gb"
      | "matchAnd (drop 9 (drop 13 line)) = Some gb"
      by blast
    then have "length g + 13 \<le> length line"
    proof cases
      case 1
      then have "matchAnd (drop (k + 2) (drop 13 line)) = Some (Some g)"
        using Some by (simp add: add.commute)
      then show ?thesis by (rule b)
    next
      case 2
      then show ?thesis using Some b [of 9 g] by simp
    qed
    with Some show ?thesis by simp
  qed
  have ga: "case ga of None \<Rightarrow> True | Some g \<Rightarrow> length g + 13 \<le> length line"
  proof (cases ga)
    case None
    then show ?thesis by simp
  next
    case (Some g)
    with rc obtain k where "g = take k (drop 2 (drop 13 line))"
      by auto
    then have "length g + 13 \<le> length line"
      using len by simp
    with Some show ?thesis by simp
  qed
  from ga gb show ?thesis ..
qed

lemma nameFits_sliceFrom:
  assumes "int (length line) \<le> SCREEN_WIDTH c div 2" and "4 \<le> k" and "startsWith line p"
    and "int (length p) = k"
  shows "nameFits c (Some (sliceFrom line k))"
proof -
  have "k \<le> int (length line)"
    using startsWith_length [OF assms(3)] assms(4) by simp
  then show ?thesis
    using assms(1,2) by (simp add: nameFits_def length_sliceFrom)
qed

lemma nameFits_trackFileHeader:
  assumes "int (length line) \<le> SCREEN_WIDTH c div 2"
    and "nameFits c (fileNameA st)" and "nameFits c (fileNameB st)"
  shows "nameFits c (fileNameA (trackFileHeader st line))
       \<and> nameFits c (fileNameB (trackFileHeader st line))"
proof -
  consider (a) "startsWith line ''--- a/''"
    | (b) "\<not> startsWith line ''--- a/''" "startsWith line ''+++ b/''"
    | (c) "\<not> startsWith line ''--- a/''" "\<not> startsWith line ''+++ b/''"
          "startsWith line ''rename from ''"
    | (d) "\<not> startsWith line ''--- a/''" "\<not> startsWith line ''+++ b/''"
          "\<not> startsWith line ''rename from ''" "startsWith line ''rename to ''"
    | (e) "\<not> startsWith line ''--- a/''" "\<not> startsWith line ''+++ b/''"
          "\<not> startsWith line ''rename from ''" "\<not> startsWith line ''rename to ''"
          "startsWith line ''Binary files''"
    | (f) "\<not> startsWith line ''--- a/''" "\<not> startsWith line ''+++ b/''"
          "\<not> startsWith line ''rename from ''" "\<not> startsWith line ''rename to ''"
          "\<not> startsWith line ''Binary files''"
    by blast
  then show ?thesis
  proof cases
    case a
    have "nameFits c (Some (sliceFrom line 6))"
      by (rule nameFits_sliceFrom [OF assms(1) _ a]) simp_all
    with a assms(3) show ?thesis by (simp add: trackFileHeader_def)
  next
    case b
    have "nameFits c (Some (sliceFrom line 6))"
      by (rule nameFits_sliceFrom [OF assms(1) _ b(2)]) simp_all
    with b assms(2) show ?thesis by (simp add: trackFileHeader_def)
  next
    case c
    have "nameFits c (Some (sliceFrom line 12))"
      by (rule nameFits_sliceFrom [OF assms(1) _ c(3)]) simp_all
    with c assms(3) show ?thesis by (simp add: trackFileHeader_def)
  next
    case d
    have "nameFits c (Some (sliceFrom line 10))"
      by (rule nameFits_sliceFrom [OF assms(1) _ d(4)]) simp_all
    with d assms(2) show ?thesis by (simp add: trackFileHeader_def)
  next
    case e
    show ?thesis
    proof (cases "BINARY_FILES_DIFF_REGEX line")
      case None
      with e assms(2,3) show ?thesis by (simp add: trackFileHeader_def)
    next
      case (Some p)
      obtain ga gb where p: "p = (ga, gb)" by (cases p)
      have "nameFits c ga \<and> nameFits c gb"
        using regex_lengths [OF Some [unfolded p]] assms(1)
        by (auto simp: nameFits_def split: option.splits)
      with e Some p show ?thesis by (simp add: trackFileHeader_def)
    qed
  next
    case f
    with assms(2,3) show ?thesis by (simp add: trackFileHeader_def)
  qed
qed

lemma exact_pendingHunk:
  assumes "fitConfig c" and "segmentsFit c W" and "runInv c n st" and "state st = Hunk"
  shows "exact c (pendingHunk c plainTheme W st)"
proof -
  from assms(3,4) obtain a b where
      ab: "startA st = Num a" "startB st = Num b" "0 \<le> a" "0 \<le> b"
        "a + int (length (hunkLines st) + n) \<le> 10 ^ nat (LINE_NUMBER_WIDTH c)"
        "b + int (length (hunkLines st) + n) \<le> 10 ^ nat (LINE_NUMBER_WIDTH c)"
    by (auto simp: runInv_def startFits_def split: jsnum.splits)
  have "int (length l) = SCREEN_WIDTH c"
    if "l \<in> set (formatHunkSideBySide c plainTheme W (hunkHeaderLine st) (hunkLines st)
                    (Num a) (Num b) (fileNameA st) (fileNameB st))" for l
    using ab(5,6) by (intro exact_hunk [OF assms(1,2) ab(3,4) _ _ that]) simp_all
  then show ?thesis
    by (simp add: ab(1,2))
qed

lemma exact_flushPending:
  assumes "fitConfig c" and "segmentsFit c W" and "runInv c n st"
  shows "exact c (fst (flushPending c plainTheme W st))"
proof (cases "state st")
  case Commit
  then show ?thesis by (simp add: flushPending_Commit)
next
  case Diff
  show ?thesis
    using exact_banner [OF assms(1), of "fileNameA st" "fileNameB st"] assms(3)
    by (simp add: flushPending_Diff [OF Diff] runInv_def)
next
  case Hunk
  show ?thesis
    using exact_pendingHunk [OF assms Hunk] by (simp add: flushPending_Hunk [OF Hunk])
qed

lemma exact_flushForCommit:
  assumes "fitConfig c" and "segmentsFit c W" and "runInv c n st"
  shows "exact c (fst (flushForCommit c plainTheme W st))"
proof (cases "state st")
  case Commit
  then show ?thesis by (simp add: flushForCommit_def)
next
  case Diff
  show ?thesis
    using exact_banner [OF assms(1), of "fileNameA st" "fileNameB st"] assms(3)
    by (simp add: flushForCommit_def Diff yieldFileName_def runInv_def split: prod.splits option.splits)
next
  case Hunk
  have "0 \<le> SCREEN_WIDTH c"
    using assms(1) by (simp add: fitConfig_def)
  then show ?thesis
    using exact_pendingHunk [OF assms Hunk] exact_separator [of c]
    by (auto simp: flushForCommit_Hunk [OF Hunk])
qed

lemma flushPending_state:
  assumes "flushPending c t W st = (ys, Inr st')"
  shows "st' = st\<lparr>hunkLines := (if state st = Hunk then [] else hunkLines st)\<rparr>"
  using assms
  by (cases "state st")
     (auto simp: flushPending_def yieldFileName_def yieldHunk_def split: prod.splits option.splits)

lemma flushForCommit_state:
  assumes "flushForCommit c t W st = (ys, Inr st')"
  shows "st' = st\<lparr>hunkLines := (if state st = Hunk then [] else hunkLines st)\<rparr>"
  using assms
  by (cases "state st")
     (auto simp: flushForCommit_def yieldFileName_def yieldHunk_def split: prod.splits option.splits)


lemma commit_line_not_bare:
  "startsWith line ''commit '' \<Longrightarrow>
   line \<noteq> ''commit'' \<and> line \<noteq> ''Author:'' \<and> line \<noteq> ''Date:''"
  by (auto simp: startsWith_def)

lemma runInv_flushed:
  assumes "runInv c (Suc n) st"
  shows "nameFits c (fileNameA st)" and "nameFits c (fileNameB st)"
    and "hunkLines (st\<lparr>hunkLines := (if state st = Hunk then [] else hunkLines st)\<rparr>) = []"
  using assms by (auto simp: runInv_def)

lemma nameFits_empty: "fitConfig c \<Longrightarrow> nameFits c (Some [])"
  by (simp add: nameFits_def fitConfig_def)

lemma exact_step:
  assumes "fitConfig c" and "segmentsFit c W" and "runInv c (Suc n) st"
    and "fitsLine c st line n"
  shows "exact c (fst (step c plainTheme W st line))
       \<and> (\<forall>st'. snd (step c plainTheme W st line) = Inr st' \<longrightarrow> runInv c n st')"
proof -
  let ?fl = "st\<lparr>hunkLines := (if state st = Hunk then [] else hunkLines st)\<rparr>"
  have sw: "0 \<le> SCREEN_WIDTH c"
    using assms(1) by (simp add: fitConfig_def)
  note fl = runInv_flushed [OF assms(3)]
  show ?thesis
  proof (cases "startsWith line ''commit ''")
    case True
    obtain ys r where f: "flushForCommit c plainTheme W st = (ys, r)"
      by (cases "flushForCommit c plainTheme W st") auto
    have ys: "exact c ys"
      using exact_flushForCommit [OF assms(1-3)] f by simp
    show ?thesis
    proof (cases r)
      case (Inl e)
      with True f ys show ?thesis by (simp add: step_def)
    next
      case (Inr st')
      have st': "st' = ?fl"
        using flushForCommit_state f Inr by blast
      have s: "step c plainTheme W st line
                 = (ys @ [formatCommitLine c plainTheme line], Inr (st'\<lparr>state := Commit\<rparr>))"
        using True f Inr by (simp add: step_def handleState_def)
      have "int (length line) \<le> SCREEN_WIDTH c"
        using assms(4) True by (simp add: fitsLine_def)
      then have cl: "int (length (formatCommitLine c plainTheme line)) = SCREEN_WIDTH c"
        using commit_line_not_bare [OF True] by (intro exact_commit_line [OF sw]) simp_all
      have "runInv c n (st'\<lparr>state := Commit\<rparr>)"
        using fl by (simp add: runInv_def st')
      with s ys cl show ?thesis by simp
    qed
  next
    case nc: False
    obtain ys r where f: "flushPending c plainTheme W st = (ys, r)"
      by (cases "flushPending c plainTheme W st") auto
    have ys: "exact c ys"
      using exact_flushPending [OF assms(1-3)] f by simp
    show ?thesis
    proof (cases "startsWith line ''diff --git''")
      case True
      show ?thesis
      proof (cases r)
        case (Inl e)
        with nc True f ys show ?thesis by (simp add: step_def)
      next
        case (Inr st')
        have st': "st' = ?fl"
          using flushPending_state f Inr by blast
        have s: "step c plainTheme W st line
                   = (ys, Inr (st'\<lparr>state := Diff, fileNameA := Some [], fileNameB := Some []\<rparr>))"
          using True f Inr by (simp add: step_diff_line)
        have "runInv c n (st'\<lparr>state := Diff, fileNameA := Some [], fileNameB := Some []\<rparr>)"
          using fl(3) nameFits_empty [OF assms(1)] by (simp add: runInv_def st')
        with s ys show ?thesis by simp
      qed
    next
      case nd: False
      show ?thesis
      proof (cases "startsWith line ''@@''")
        case True
        show ?thesis
        proof (cases r)
          case (Inl e)
          with True f ys show ?thesis by (simp add: step_header)
        next
          case (Inr st')
          have st': "st' = ?fl"
            using flushPending_state f Inr by blast
          show ?thesis
          proof (cases "parseHunkHeader line")
            case (Inl e)
            with True f Inr ys show ?thesis by (simp add: step_header)
          next
            case p: (Inr ab)
            obtain a b where ab: "ab = (a, b)" by (cases ab)
            have s: "step c plainTheme W st line
                = (ys, Inr (st'\<lparr>hunkHeaderLine := line, startA := a, startB := b,
                                state := Hunk\<rparr>))"
              using True f Inr p ab by (simp add: step_header)
            have "startFits c n a \<and> startFits c n b"
              using assms(4) nc nd True p ab by (simp add: fitsLine_def)
            then have "runInv c n (st'\<lparr>hunkHeaderLine := line, startA := a, startB := b,
                                state := Hunk\<rparr>)"
              using fl by (simp add: runInv_def st')
            with s ys show ?thesis by simp
          qed
        qed
      next
        case False
        with nc nd have nt: "\<not> isTransition line"
          by (simp add: isTransition_def)
        note s = step_plain [OF nt, of c plainTheme W st]
        show ?thesis
        proof (cases "state st")
          case Commit
          have "int (length line) \<le> SCREEN_WIDTH c \<and> line \<noteq> ''commit'' \<and> line \<noteq> ''Author:''
                  \<and> line \<noteq> ''Date:''"
            using assms(4) nc nd False Commit by (simp add: fitsLine_def)
          then have "int (length (formatCommitLine c plainTheme line)) = SCREEN_WIDTH c"
            by (intro exact_commit_line [OF sw]) simp_all
          moreover have "runInv c n st"
            using assms(3) Commit by (simp add: runInv_def)
          ultimately show ?thesis
            using Commit by (simp add: s handleState_def)
        next
          case Diff
          have "int (length line) \<le> SCREEN_WIDTH c div 2"
            using assms(4) nc nd False Diff by (simp add: fitsLine_def)
          from nameFits_trackFileHeader [OF this fl(1,2)]
          have "runInv c n (trackFileHeader st line)"
            using assms(3) Diff by (simp add: runInv_def)
          then show ?thesis
            using Diff by (simp add: s handleState_def)
        next
          case Hunk
          have "runInv c n (st\<lparr>hunkLines := hunkLines st @ [line]\<rparr>)"
            using assms(3) Hunk by (simp add: runInv_def)
          then show ?thesis
            using Hunk by (simp add: s handleState_def)
        qed
      qed
    qed
  qed
qed

lemma exact_feed:
  assumes "fitConfig c" and "segmentsFit c W"
  shows "runInv c (length lines) st \<Longrightarrow> fitsRun c plainTheme W st lines \<Longrightarrow>
    exact c (fst (feed c plainTheme W st lines))
    \<and> (\<forall>st'. snd (feed c plainTheme W st lines) = Inr st' \<longrightarrow> runInv c 0 st')"
proof (induction lines arbitrary: st)
  case Nil
  then show ?case by simp
next
  case (Cons l lines)
  obtain ys r where s: "step c plainTheme W st l = (ys, r)"
    by (cases "step c plainTheme W st l") auto
  have fl: "fitsLine c st l (length lines)"
    using Cons.prems(2) by simp
  have inv: "runInv c (Suc (length lines)) st"
    using Cons.prems(1) by simp
  note es = exact_step [OF assms inv fl]
  have ys: "exact c ys"
    using es s by simp
  show ?case
  proof (cases r)
    case (Inl e)
    with s ys show ?thesis by simp
  next
    case (Inr st1)
    have i1: "runInv c (length lines) st1"
      using es s Inr by simp
    have f1: "fitsRun c plainTheme W st1 lines"
      using Cons.prems(2) s Inr by simp
    obtain zs r' where f: "feed c plainTheme W st1 lines = (zs, r')"
      by (cases "feed c plainTheme W st1 lines") auto
    from Cons.IH [OF i1 f1] f s Inr ys show ?thesis
      by auto
  qed
qed

lemma runInv_initial: "fitConfig c \<Longrightarrow> runInv c n initialState"
  by (simp add: runInv_def initialState_def nameFits_def fitConfig_def)

lemma exact_stream:
  assumes "fitConfig c" and "segmentsFit c W" and "fitsRun c plainTheme W initialState lines"
  shows "exact c (fst (iterSideBySideDiff c plainTheme W lines))"
proof -
  obtain ys r where f: "feed c plainTheme W initialState lines = (ys, r)"
    by (cases "feed c plainTheme W initialState lines") auto
  note ef = exact_feed [OF assms(1,2) runInv_initial [OF assms(1)] assms(3)]
  have ys: "exact c ys"
    using ef f by simp
  show ?thesis
  proof (cases r)
    case (Inl e)
    with f ys show ?thesis by (simp add: iterSideBySideDiff_def)
  next
    case (Inr st)
    have "runInv c 0 st"
      using ef f Inr by simp
    from exact_flushPending [OF assms(1,2) this] f ys Inr show ?thesis
      by (auto simp: iterSideBySideDiff_feed)
  qed
qed

section \<open>The width under a theme that adds escape sequences\<close>

subsection \<open>Plain text\<close>

lemma plainText_simps [simp]:
  "plainText p []"
  "plainText p (x # s) = (p x \<and> plainText p s)"
  "plainText p (a @ b) = (plainText p a \<and> plainText p b)"
  by (simp_all add: plainText_def)

lemma plainText_subset: "plainText p s \<Longrightarrow> set s' \<subseteq> set s \<Longrightarrow> plainText p s'"
  by (auto simp: plainText_def list_all_iff)

lemma plainText_take: "plainText p s \<Longrightarrow> plainText p (take n s)"
  by (rule plainText_subset [OF _ set_take_subset])

lemma plainText_drop: "plainText p s \<Longrightarrow> plainText p (drop n s)"
  by (rule plainText_subset [OF _ set_drop_subset])

lemma plainText_slice: "plainText p s \<Longrightarrow> plainText p (slice s b e)"
  by (simp add: slice_def plainText_take plainText_drop)

lemma plainText_sliceFrom: "plainText p s \<Longrightarrow> plainText p (sliceFrom s b)"
  by (simp add: sliceFrom_def plainText_drop)

lemma plainText_takeWhile: "plainText p s \<Longrightarrow> plainText p (takeWhile q s)"
  by (erule plainText_subset) (auto dest: set_takeWhileD)

lemma plainText_replicate: "p x \<Longrightarrow> plainText p (replicate n x)"
  by (simp add: plainText_def list_all_iff)

lemma widthMeasure_chars:
  assumes "widthMeasure w p"
  shows "p CHR '' ''" and "p DASH" and "p SQUARE" and "w [] = 0"
    and "\<And>x s. p x \<Longrightarrow> w (x # s) = 1 + w s"
  using assms by (simp_all add: widthMeasure_def)

lemma plainText_padEnd:
  "widthMeasure w p \<Longrightarrow> plainText p s \<Longrightarrow> plainText p (padEnd s n)"
  by (simp add: padEnd_def plainText_replicate widthMeasure_chars)

lemma plainText_padStart:
  "widthMeasure w p \<Longrightarrow> plainText p s \<Longrightarrow> plainText p (padStart s n)"
  by (simp add: padStart_def padStartWith_def plainText_replicate widthMeasure_chars)

lemma w_plain:
  assumes "widthMeasure w p"
  shows "plainText p s \<Longrightarrow> w (s @ r) = int (length s) + w r"
  by (induction s) (simp_all add: widthMeasure_chars(5) [OF assms])

lemma w_plain0: "widthMeasure w p \<Longrightarrow> plainText p s \<Longrightarrow> w s = int (length s)"
  using w_plain [of w p s "[]"] by (simp add: widthMeasure_chars)

lemma keepsWidth_append: "keepsWidth w f \<Longrightarrow> w (f s @ r) = w s + w r"
  by (simp add: keepsWidth_def)

lemma keepsWidth_whole: "widthMeasure w p \<Longrightarrow> keepsWidth w f \<Longrightarrow> w (f s) = w s"
  using keepsWidth_append [of w f s "[]"] by (simp add: widthMeasure_chars)

lemma theme_keeps:
  assumes "themeKeepsWidth w t"
  shows "keepsWidth w (COMMIT_COLOR t)" "keepsWidth w (COMMIT_SHA_COLOR t)"
    "keepsWidth w (COMMIT_AUTHOR_COLOR t)" "keepsWidth w (COMMIT_DATE_COLOR t)"
    "keepsWidth w (BORDER_COLOR t)" "keepsWidth w (FILE_NAME_COLOR t)"
    "keepsWidth w (HUNK_HEADER_COLOR t)" "keepsWidth w (DELETED_LINE_COLOR t)"
    "keepsWidth w (DELETED_LINE_NO_COLOR t)" "keepsWidth w (INSERTED_LINE_COLOR t)"
    "keepsWidth w (INSERTED_LINE_NO_COLOR t)" "keepsWidth w (UNMODIFIED_LINE_COLOR t)"
    "keepsWidth w (UNMODIFIED_LINE_NO_COLOR t)" "keepsWidth w (MISSING_LINE_COLOR t)"
  using assms by (simp_all add: themeKeepsWidth_def)

lemma lineColor_keeps:
  assumes "themeKeepsWidth w t"
  shows "keepsWidth w (lineColorForLineHalf t h)" and "keepsWidth w (lineNoColorForLineHalf t h)"
  using theme_keeps [OF assms]
  by (simp_all add: lineColorForLineHalf_def lineNoColorForLineHalf_def split: option.splits)

lemma labelColorOf_keeps:
  assumes "themeKeepsWidth w t" and "labelColorOf t label = Some f"
  shows "keepsWidth w f"
  using theme_keeps [OF assms(1)] assms(2) by (auto simp: labelColorOf_def split: if_splits)

lemma labelColorOf_None: "labelColorOf t label = None \<Longrightarrow> labelColorOf t' label = None"
  by (simp add: labelColorOf_def split: if_splits)

lemma labelColorOf_Some:
  "labelColorOf t label = Some f \<Longrightarrow> \<exists>g. labelColorOf t' label = Some g"
  by (simp add: labelColorOf_def split: if_splits)

subsection \<open>The lines of a theme and of the plain theme\<close>

lemma same_separator:
  assumes "widthMeasure w p" and "themeKeepsWidth w t"
  shows "w (HORIZONTAL_SEPARATOR c t) = int (length (HORIZONTAL_SEPARATOR c plainTheme))"
proof -
  have "plainText p (padStartWith [] (SCREEN_WIDTH c) DASH)"
    by (simp add: padStartWith_def plainText_replicate widthMeasure_chars [OF assms(1)])
  then show ?thesis
    by (simp add: HORIZONTAL_SEPARATOR_def keepsWidth_whole [OF assms(1) theme_keeps(5) [OF assms(2)]]
          w_plain0 [OF assms(1)])
qed

lemma same_commit_line:
  assumes "widthMeasure w p" and "themeKeepsWidth w t" and "plainText p line"
  shows "w (formatCommitLine c t line) = int (length (formatCommitLine c plainTheme line))"
proof (cases "labelColorOf t (firstField CHR '' '' line)")
  case None
  have "plainText p (padEnd line (SCREEN_WIDTH c))"
    using assms(1,3) by (rule plainText_padEnd)
  then show ?thesis
    using None labelColorOf_None [OF None, of plainTheme]
    by (simp add: formatCommitLine_def Let_def w_plain0 [OF assms(1)]
          keepsWidth_whole [OF assms(1) theme_keeps(1) [OF assms(2)]])
next
  case (Some f)
  let ?label = "firstField CHR '' '' line"
  let ?rest = "sliceFrom line (int (length ?label) + 1)"
  let ?pad = "padEnd [] (SCREEN_WIDTH c - int (length line))"
  obtain g where g: "labelColorOf plainTheme ?label = Some g"
    using labelColorOf_Some [OF Some] by blast
  have gid: "g = (\<lambda>s. s)"
    using labelColorOf_plain [OF g] .
  have kf: "keepsWidth w f"
    using labelColorOf_keeps [OF assms(2) Some] .
  have pl: "plainText p (?label @ '' '')" "plainText p ?rest" "plainText p ?pad"
    using assms(3) widthMeasure_chars(1) [OF assms(1)]
    by (simp_all add: firstField_takeWhile plainText_takeWhile plainText_sliceFrom
          plainText_padEnd [OF assms(1)])
  have "w (formatCommitLine c t line) = w ((?label @ '' '') @ f ?rest @ ?pad)"
    using Some
    by (simp add: formatCommitLine_def Let_def
          keepsWidth_whole [OF assms(1) theme_keeps(1) [OF assms(2)]])
  also have "\<dots> = int (length (?label @ '' '')) + w (f ?rest @ ?pad)"
    by (rule w_plain [OF assms(1) pl(1)])
  also have "w (f ?rest @ ?pad) = w ?rest + w ?pad"
    by (rule keepsWidth_append [OF kf])
  also have "w ?rest = int (length ?rest)"
    by (rule w_plain0 [OF assms(1) pl(2)])
  also have "w ?pad = int (length ?pad)"
    by (rule w_plain0 [OF assms(1) pl(3)])
  finally show ?thesis
    using g by (simp add: formatCommitLine_def Let_def gid)
qed

lemma w_Cons: "widthMeasure w p \<Longrightarrow> p x \<Longrightarrow> w (x # s) = 1 + w s"
  by (simp add: widthMeasure_def)

lemma same_banner:
  assumes "widthMeasure w p" and "themeKeepsWidth w t"
    and "plainName p fa" and "plainName p fb"
  shows "list_all2 (sameWidth w c t) (fst (formatFileName c t fa fb))
           (fst (formatFileName c plainTheme fa fb))
       \<and> snd (formatFileName c t fa fb) = snd (formatFileName c plainTheme fa fb)"
proof -
  note k = theme_keeps [OF assms(2)]
  note ch = widthMeasure_chars [OF assms(1)]
  have sep: "w (HORIZONTAL_SEPARATOR c t) = int (length (HORIZONTAL_SEPARATOR c plainTheme))"
    using assms(1,2) by (rule same_separator)
  have body: "w (FILE_NAME_COLOR t '' '' @ ind
                  @ FILE_NAME_COLOR t ('' '' @ padEnd l (SCREEN_WIDTH c - 2 - 2)))
              = int (length ('' '' @ ind' @ '' '' @ padEnd l (SCREEN_WIDTH c - 2 - 2)))"
    if "plainText p l" and "\<And>r. w (ind @ r) = int (length ind') + w r" for ind ind' l
  proof -
    have pl: "plainText p ('' '' @ padEnd l (SCREEN_WIDTH c - 2 - 2))"
      using that(1) ch(1) by (simp add: plainText_padEnd [OF assms(1)])
    have "w (FILE_NAME_COLOR t '' '' @ ind
              @ FILE_NAME_COLOR t ('' '' @ padEnd l (SCREEN_WIDTH c - 2 - 2)))
          = w '' '' + (int (length ind')
              + w (FILE_NAME_COLOR t ('' '' @ padEnd l (SCREEN_WIDTH c - 2 - 2))))"
      by (simp only: keepsWidth_append [OF k(6)] that(2))
    also have "w (FILE_NAME_COLOR t ('' '' @ padEnd l (SCREEN_WIDTH c - 2 - 2)))
                 = int (length ('' '' @ padEnd l (SCREEN_WIDTH c - 2 - 2)))"
      by (simp only: keepsWidth_whole [OF assms(1) k(6)] w_plain0 [OF assms(1) pl])
    also have "w '' '' = 1"
      using w_plain0 [OF assms(1), of "'' ''"] ch(1) by simp
    finally show ?thesis by simp
  qed
  have ins2: "w (INSERTED_LINE_COLOR t [SQUARE, SQUARE] @ r) = int (length [SQUARE, SQUARE]) + w r"
    for r
    using w_plain0 [OF assms(1), of "[SQUARE, SQUARE]"] ch(3)
    by (simp add: keepsWidth_append [OF k(10)])
  have del2: "w (DELETED_LINE_COLOR t [SQUARE, SQUARE] @ r) = int (length [SQUARE, SQUARE]) + w r"
    for r
    using w_plain0 [OF assms(1), of "[SQUARE, SQUARE]"] ch(3)
    by (simp add: keepsWidth_append [OF k(8)])
  have both: "w ((DELETED_LINE_COLOR t [SQUARE] @ INSERTED_LINE_COLOR t [SQUARE]) @ r)
                = int (length [SQUARE, SQUARE]) + w r" for r
    using w_plain0 [OF assms(1), of "[SQUARE]"] ch(3)
    by (simp add: keepsWidth_append [OF k(10)] keepsWidth_append [OF k(8)])
  show ?thesis
  proof (cases "truthy fa")
    case False
    show ?thesis
    proof (cases fb)
      case None
      with False sep show ?thesis
        by (simp add: formatFileName_def fileNameBody_def)
    next
      case (Some l)
      with assms(4) have "plainText p l" by (simp add: plainName_def)
      from body [OF this ins2] False Some sep show ?thesis
        by (simp add: formatFileName_def fileNameBody_def)
    qed
  next
    case ta: True
    then obtain a where a: "fa = Some a" "a \<noteq> []"
      by (cases fa) auto
    with assms(3) have pa: "plainText p a" by (simp add: plainName_def)
    show ?thesis
    proof (cases "truthy fb")
      case False
      from body [OF pa del2] ta False a sep show ?thesis
        by (simp add: formatFileName_def fileNameBody_def)
    next
      case tb: True
      then obtain b where b: "fb = Some b" "b \<noteq> []"
        by (cases fb) auto
      show ?thesis
      proof (cases "a = b")
        case True
        from body [OF pa both] ta tb a b True sep show ?thesis
          by (simp add: formatFileName_def fileNameBody_def)
      next
        case False
        have "isRenameBody c t (renameBody c t a b)"
          unfolding isRenameBody_def using a(2) b(2) False by blast
        with ta tb a b False sep show ?thesis
          by (simp add: formatFileName_def fileNameBody_def renameBody_def)
      qed
    qed
  qed
qed

subsection \<open>Rows of plain text\<close>

lemma plainText_digits:
  assumes "widthMeasure w p"
  shows "plainText p (digits n)"
proof (induction n rule: digits.induct)
  case (1 n)
  have m: "map (\<lambda>k::nat. char_of (48 + k) :: char) [0..<10] = ''0123456789''"
    by code_simp
  have d: "p (char_of (48 + k))" if "k < 10" for k :: nat
  proof -
    from that have "(char_of (48 + k) :: char) \<in> set (map (\<lambda>k::nat. char_of (48 + k)) [0..<10])"
      by (simp only: set_map set_upt) auto
    then have "(char_of (48 + k) :: char) \<in> set ''0123456789''"
      by (simp only: m)
    moreover have "plainText p ''0123456789''"
      using assms by (simp add: widthMeasure_def)
    ultimately show ?thesis
      unfolding plainText_def list_all_iff by blast
  qed
  show ?case
  proof (cases "n < 10")
    case True
    then show ?thesis by (simp add: digits.simps [of n] d)
  next
    case False
    with "1.IH" show ?thesis by (simp add: digits.simps [of n] d)
  qed
qed

lemma plainText_toString: "widthMeasure w p \<Longrightarrow> plainText p (toString n)"
  by (cases n) (auto simp: plainText_digits widthMeasure_def)

lemma plainHalf_lineHalf:
  "widthMeasure w p \<Longrightarrow> plainText p l \<Longrightarrow> plainHalf p (Some (lineHalf n l))"
  by (simp add: plainHalf_def halfNumber_def halfPrefix_def halfText_def lineHalf_def
        plainText_toString plainText_slice plainText_sliceFrom del: toString.simps)

lemma plainHalf_None [simp]: "plainHalf p None"
  by (simp add: plainHalf_def halfNumber_def halfPrefix_def halfText_def)

lemma flushRows_plain:
  assumes "widthMeasure w p"
  shows "list_all (plainText p) A \<Longrightarrow> list_all (plainText p) B \<Longrightarrow>
   \<forall>r \<in> set rows. plainHalf p (fst r) \<and> plainHalf p (snd r) \<Longrightarrow>
   \<forall>r \<in> set (snd (snd (flushRows A B nA nB rows))). plainHalf p (fst r) \<and> plainHalf p (snd r)"
  by (induction A B nA nB rows rule: flushRows.induct)
     (simp_all add: plainHalf_lineHalf [OF assms])

lemma rowsLoop_plain:
  assumes "widthMeasure w p"
  shows "list_all (plainText p) ls \<Longrightarrow> list_all (plainText p) A \<Longrightarrow> list_all (plainText p) B \<Longrightarrow>
   \<forall>r \<in> set rows. plainHalf p (fst r) \<and> plainHalf p (snd r) \<Longrightarrow>
   \<forall>r \<in> set (rowsLoop fa fb ls A B nA nB rows). plainHalf p (fst r) \<and> plainHalf p (snd r)"
proof (induction ls arbitrary: A B nA nB rows)
  case Nil
  obtain a b r where f: "flushRows A B nA nB rows = (a, b, r)"
    by (cases "flushRows A B nA nB rows") auto
  from flushRows_plain [OF assms Nil(2,3,4), of nA nB] f show ?case by simp
next
  case (Cons l ls)
  have l: "plainText p l" and ls: "list_all (plainText p) ls"
    using Cons.prems(1) by simp_all
  show ?case
  proof (cases "startsWith l ''-''")
    case True
    have "\<forall>r \<in> set (rowsLoop fa fb ls (A @ [l]) B nA nB rows).
            plainHalf p (fst r) \<and> plainHalf p (snd r)"
      using Cons.prems l by (intro Cons.IH ls) simp_all
    with True show ?thesis by simp
  next
    case nm: False
    show ?thesis
    proof (cases "startsWith l ''+''")
      case True
      have "\<forall>r \<in> set (rowsLoop fa fb ls A (B @ [l]) nA nB rows).
              plainHalf p (fst r) \<and> plainHalf p (snd r)"
        using Cons.prems l by (intro Cons.IH ls) simp_all
      with nm True show ?thesis by simp
    next
      case False
      let ?A = "if truthy fa then [l] else []" and ?B = "if truthy fb then [l] else []"
      obtain a b r where f: "flushRows A B nA nB rows = (a, b, r)"
        by (cases "flushRows A B nA nB rows") auto
      have r: "\<forall>x \<in> set r. plainHalf p (fst x) \<and> plainHalf p (snd x)"
        using flushRows_plain [OF assms Cons.prems(2,3,4), of nA nB] f by simp
      have "\<forall>x \<in> set (rowsLoop fa fb ls ?A ?B a b r). plainHalf p (fst x) \<and> plainHalf p (snd x)"
        using l by (intro Cons.IH ls r) simp_all
      with nm False f show ?thesis by simp
    qed
  qed
qed

lemma hunkRows_plain:
  assumes "widthMeasure w p" and "list_all (plainText p) rawLines"
    and "r \<in> set (hunkRows rawLines nA nB fa fb)"
  shows "plainHalf p (fst r)" and "plainHalf p (snd r)"
  using rowsLoop_plain [OF assms(1,2), of "[]" "[]" "[]" fa fb nA nB] assms(3)
  by (simp_all add: hunkRows_def)

lemma list_all2_mapI:
  "(\<And>x. x \<in> set xs \<Longrightarrow> R (f x) (g x)) \<Longrightarrow> list_all2 R (map f xs) (map g xs)"
  by (induction xs) simp_all

lemma same_columns:
  assumes "widthMeasure w p" and "themeKeepsWidth w t"
    and "plainText p no" and "plainText p pre" and "plainText p seg"
  shows "samePiece w (shownColumns c t h no pre seg) (shownColumns c plainTheme h no pre seg)"
proof
  fix r
  note lk = lineColor_keeps [OF assms(2), of h]
  have sp: "p CHR '' ''"
    using assms(1) by (rule widthMeasure_chars)
  have pl: "plainText p (padStart no (LINE_NUMBER_WIDTH c))"
      "plainText p ('' '' @ padStart pre (LINE_PREFIX_WIDTH c))"
      "plainText p ('' '' @ padEnd seg (LINE_TEXT_WIDTH c))"
    using assms(3-5) sp
    by (simp_all add: plainText_padStart [OF assms(1)] plainText_padEnd [OF assms(1)])
  have "w (shownColumns c t h no pre seg @ r)
          = w (padStart no (LINE_NUMBER_WIDTH c))
            + (w ('' '' @ padStart pre (LINE_PREFIX_WIDTH c))
               + (w ('' '' @ padEnd seg (LINE_TEXT_WIDTH c)) + w r))"
    by (simp only: shownColumns_def append_assoc keepsWidth_append [OF lk(1)]
          keepsWidth_append [OF lk(2)])
  also have "\<dots> = int (length (padStart no (LINE_NUMBER_WIDTH c)))
            + (int (length ('' '' @ padStart pre (LINE_PREFIX_WIDTH c)))
               + (int (length ('' '' @ padEnd seg (LINE_TEXT_WIDTH c))) + w r))"
    by (simp only: w_plain0 [OF assms(1) pl(1)] w_plain0 [OF assms(1) pl(2)]
          w_plain0 [OF assms(1) pl(3)])
  finally show "w (shownColumns c t h no pre seg @ r)
          = int (length (shownColumns c plainTheme h no pre seg)) + w r"
    by (simp add: shownColumns_def)
qed

lemma plain_segments:
  assumes "wrapperPlain p c W" and "plainText p txt'"
    and "seg \<in> set (fitTextToWidth c W txt' width)"
  shows "plainText p seg"
  using assms
  by (auto simp: wrapperPlain_def fitTextToWidth_def plainText_slice split: if_splits)

lemma same_half:
  assumes "widthMeasure w p" and "themeKeepsWidth w t" and "wrapperPlain p c W"
    and "plainHalf p h"
  shows "list_all2 (samePiece w) (shownHalf c t W h) (shownHalf c plainTheme W h)"
proof -
  define segs where "segs = fitTextToWidth c W (halfText h) (LINE_TEXT_WIDTH c)"
  have ps: "plainText p seg" if "seg \<in> set segs" for seg
    using plain_segments [OF assms(3), of "halfText h" seg "LINE_TEXT_WIDTH c"] assms(4) that
    by (simp add: segs_def plainHalf_def)
  have ph: "plainText p (halfNumber h)" "plainText p (halfPrefix h)"
    using assms(4) by (simp_all add: plainHalf_def)
  show ?thesis
  proof (cases segs)
    case Nil
    then show ?thesis by (simp add: shownHalf_def segs_def [symmetric])
  next
    case (Cons s ss)
    have first: "samePiece w (shownColumns c t h (halfNumber h) (halfPrefix h) s)
                   (shownColumns c plainTheme h (halfNumber h) (halfPrefix h) s)"
      using ps [of s] Cons by (intro same_columns [OF assms(1,2) ph]) simp
    have rest: "list_all2 (samePiece w) (map (shownColumns c t h [] []) ss)
                  (map (shownColumns c plainTheme h [] []) ss)"
    proof (rule list_all2_mapI)
      fix x assume "x \<in> set ss"
      then have "plainText p x" using ps [of x] Cons by simp
      then show "samePiece w (shownColumns c t h [] [] x) (shownColumns c plainTheme h [] [] x)"
        by (intro same_columns [OF assms(1,2)]) simp_all
    qed
    from first rest Cons show ?thesis
      by (simp add: shownHalf_def segs_def [symmetric])
  qed
qed

lemma same_pairLines:
  assumes "w [] = 0"
  shows "samePiece w blankA blankA' \<Longrightarrow> samePiece w blankB blankB' \<Longrightarrow>
    list_all2 (samePiece w) xs xs' \<Longrightarrow> list_all2 (samePiece w) ys ys' \<Longrightarrow>
    list_all2 (\<lambda>l l'. w l = int (length l'))
      (pairLines blankA blankB xs ys) (pairLines blankA' blankB' xs' ys')"
proof (induction blankA blankB xs ys arbitrary: xs' ys' rule: pairLines.induct)
  case (1 blankA blankB)
  then show ?case by simp
next
  case (2 blankA blankB a as)
  from "2.prems"(3) obtain a' as' where x: "xs' = a' # as'" "samePiece w a a'"
      "list_all2 (samePiece w) as as'"
    by (auto simp: list_all2_Cons1)
  from "2.prems"(4) have y: "ys' = []" by simp
  have "w (a @ blankB) = int (length (a' @ blankB'))"
  proof -
    have "w (a @ blankB) = int (length a') + w (blankB @ [])"
      using x(2) [rule_format, of blankB] by simp
    also have "w (blankB @ []) = int (length blankB') + w []"
      by (rule "2.prems"(2) [rule_format])
    finally show ?thesis using assms(1) by simp
  qed
  moreover have "list_all2 (\<lambda>l l'. w l = int (length l'))
      (pairLines blankA blankB as []) (pairLines blankA' blankB' as' [])"
    using x(3) "2.prems"(1,2) by (intro "2.IH") simp_all
  ultimately show ?case by (simp add: x(1) y)
next
  case (3 blankA blankB b bs)
  from "3.prems"(4) obtain b' bs' where y: "ys' = b' # bs'" "samePiece w b b'"
      "list_all2 (samePiece w) bs bs'"
    by (auto simp: list_all2_Cons1)
  from "3.prems"(3) have x: "xs' = []" by simp
  have "w (blankA @ b) = int (length (blankA' @ b'))"
  proof -
    have "w (blankA @ b) = int (length blankA') + w (b @ [])"
      using "3.prems"(1) [rule_format, of b] by simp
    also have "w (b @ []) = int (length b') + w []"
      by (rule y(2) [rule_format])
    finally show ?thesis using assms(1) by simp
  qed
  moreover have "list_all2 (\<lambda>l l'. w l = int (length l'))
      (pairLines blankA blankB [] bs) (pairLines blankA' blankB' [] bs')"
    using y(3) "3.prems"(1,2) by (intro "3.IH") simp_all
  ultimately show ?case by (simp add: x y(1))
next
  case (4 blankA blankB a as b bs)
  from "4.prems"(3) obtain a' as' where x: "xs' = a' # as'" "samePiece w a a'"
      "list_all2 (samePiece w) as as'"
    by (auto simp: list_all2_Cons1)
  from "4.prems"(4) obtain b' bs' where y: "ys' = b' # bs'" "samePiece w b b'"
      "list_all2 (samePiece w) bs bs'"
    by (auto simp: list_all2_Cons1)
  have "w (a @ b) = int (length (a' @ b'))"
  proof -
    have "w (a @ b) = int (length a') + w (b @ [])"
      using x(2) [rule_format, of b] by simp
    also have "w (b @ []) = int (length b') + w []"
      by (rule y(2) [rule_format])
    finally show ?thesis using assms(1) by simp
  qed
  moreover have "list_all2 (\<lambda>l l'. w l = int (length l'))
      (pairLines blankA blankB as bs) (pairLines blankA' blankB' as' bs')"
    using x(3) y(3) "4.prems"(1,2) by (intro "4.IH") simp_all
  ultimately show ?case by (simp add: x(1) y(1))
qed

lemma same_blank:
  assumes "widthMeasure w p" and "themeKeepsWidth w t"
  shows "samePiece w (lineColorForLineHalf t h (BLANK_LINE c))
           (lineColorForLineHalf plainTheme h (BLANK_LINE c))"
proof
  fix r
  have "plainText p (BLANK_LINE c)"
    by (simp add: BLANK_LINE_def plainText_padStart [OF assms(1)])
  then show "w (lineColorForLineHalf t h (BLANK_LINE c) @ r)
               = int (length (lineColorForLineHalf plainTheme h (BLANK_LINE c))) + w r"
    by (simp add: keepsWidth_append [OF lineColor_keeps(1) [OF assms(2)]] w_plain0 [OF assms(1)])
qed

lemma same_row:
  assumes "widthMeasure w p" and "themeKeepsWidth w t" and "wrapperPlain p c W"
    and "plainHalf p (fst r)" and "plainHalf p (snd r)"
  shows "list_all2 (\<lambda>l l'. w l = int (length l')) (shownRow c t W r) (shownRow c plainTheme W r)"
  unfolding shownRow_def
  by (rule same_pairLines [OF widthMeasure_chars(4) [OF assms(1)] same_blank [OF assms(1,2)]
        same_blank [OF assms(1,2)] same_half [OF assms(1-3) assms(4)]
        same_half [OF assms(1-3) assms(5)]])

lemma same_rows:
  assumes "widthMeasure w p" and "themeKeepsWidth w t" and "wrapperPlain p c W"
  shows "\<forall>r \<in> set rows. plainHalf p (fst r) \<and> plainHalf p (snd r) \<Longrightarrow>
    list_all2 (\<lambda>l l'. w l = int (length l'))
      (concat (map (shownRow c t W) rows)) (concat (map (shownRow c plainTheme W) rows))"
proof (induction rows)
  case Nil
  show ?case by simp
next
  case (Cons r rows)
  have "list_all2 (\<lambda>l l'. w l = int (length l')) (shownRow c t W r) (shownRow c plainTheme W r)"
    using Cons.prems by (intro same_row [OF assms]) simp_all
  moreover have "list_all2 (\<lambda>l l'. w l = int (length l'))
      (concat (map (shownRow c t W) rows)) (concat (map (shownRow c plainTheme W) rows))"
    using Cons.prems by (intro Cons.IH) simp
  ultimately show ?case
    by (simp add: list_all2_appendI)
qed

lemma same_hunk:
  assumes "widthMeasure w p" and "themeKeepsWidth w t" and "wrapperPlain p c W"
    and "plainText p headerLine" and "list_all (plainText p) rawLines"
  shows "list_all2 (\<lambda>l l'. w l = int (length l'))
           (formatHunkSideBySide c t W headerLine rawLines nA nB fa fb)
           (formatHunkSideBySide c plainTheme W headerLine rawLines nA nB fa fb)"
proof -
  have hdr: "list_all2 (\<lambda>l l'. w l = int (length l'))
      (map (\<lambda>l. HUNK_HEADER_COLOR t (padEnd l (SCREEN_WIDTH c)))
         (fitTextToWidth c W headerLine (SCREEN_WIDTH c)))
      (map (\<lambda>l. HUNK_HEADER_COLOR plainTheme (padEnd l (SCREEN_WIDTH c)))
         (fitTextToWidth c W headerLine (SCREEN_WIDTH c)))"
  proof (rule list_all2_mapI)
    fix x assume "x \<in> set (fitTextToWidth c W headerLine (SCREEN_WIDTH c))"
    then have "plainText p (padEnd x (SCREEN_WIDTH c))"
      using plain_segments [OF assms(3,4)] by (intro plainText_padEnd [OF assms(1)]) blast
    then show "w (HUNK_HEADER_COLOR t (padEnd x (SCREEN_WIDTH c)))
                 = int (length (HUNK_HEADER_COLOR plainTheme (padEnd x (SCREEN_WIDTH c))))"
      by (simp add: keepsWidth_whole [OF assms(1) theme_keeps(7) [OF assms(2)]]
            w_plain0 [OF assms(1)])
  qed
  have rows: "list_all2 (\<lambda>l l'. w l = int (length l'))
      (concat (map (shownRow c t W) (hunkRows rawLines nA nB fa fb)))
      (concat (map (shownRow c plainTheme W) (hunkRows rawLines nA nB fa fb)))"
    using hunkRows_plain [OF assms(1,5)] by (intro same_rows [OF assms(1-3)]) blast
  from hdr rows show ?thesis
    by (simp only: formatHunkSideBySide_shown list_all2_appendI)
qed

subsection \<open>The state does not depend on the theme\<close>

lemma snd_formatFileName:
  "snd (formatFileName c t fa fb) = snd (formatFileName c t' fa fb)"
  by (simp add: formatFileName_def fileNameBody_def split: option.splits)

lemma snd_flushPending: "snd (flushPending c t W st) = snd (flushPending c t' W st)"
proof (cases "state st")
  case Commit
  then show ?thesis by (simp add: flushPending_Commit)
next
  case Diff
  show ?thesis
    using snd_formatFileName [of c t "fileNameA st" "fileNameB st" t']
    by (simp add: flushPending_Diff [OF Diff])
next
  case Hunk
  then show ?thesis by (simp add: flushPending_Hunk)
qed

lemma snd_flushForCommit: "snd (flushForCommit c t W st) = snd (flushForCommit c t' W st)"
proof (cases "state st")
  case Commit
  then show ?thesis by (simp add: flushForCommit_def)
next
  case Diff
  have "flushForCommit c t W st = flushPending c t W st" for t
    using Diff by (simp add: flushForCommit_def flushPending_def)
  then show ?thesis
    using snd_flushPending [of c t W st t'] by simp
next
  case Hunk
  then show ?thesis by (simp add: flushForCommit_Hunk)
qed

lemma snd_handleState: "snd (handleState c t st line) = snd (handleState c t' st line)"
  by (cases "state st") (simp_all add: handleState_def)

lemma step_cases:
  "step c t W st line
     = (if startsWith line ''commit '' then
          (case snd (flushForCommit c t W st) of
             Inl e \<Rightarrow> (fst (flushForCommit c t W st), Inl e)
           | Inr st' \<Rightarrow>
               (fst (flushForCommit c t W st) @ [formatCommitLine c t line],
                Inr (st'\<lparr>state := Commit\<rparr>)))
        else if startsWith line ''diff --git'' then
          (case snd (flushPending c t W st) of
             Inl e \<Rightarrow> (fst (flushPending c t W st), Inl e)
           | Inr st' \<Rightarrow>
               (fst (flushPending c t W st),
                Inr (st'\<lparr>state := Diff, fileNameA := Some [], fileNameB := Some []\<rparr>)))
        else if startsWith line ''@@'' then
          (case snd (flushPending c t W st) of
             Inl e \<Rightarrow> (fst (flushPending c t W st), Inl e)
           | Inr st' \<Rightarrow>
               (case parseHunkHeader line of
                  Inl e \<Rightarrow> (fst (flushPending c t W st), Inl e)
                | Inr (a, b) \<Rightarrow>
                    (fst (flushPending c t W st),
                     Inr (st'\<lparr>hunkHeaderLine := line, startA := a, startB := b,
                              state := Hunk\<rparr>))))
        else (fst (handleState c t st line), Inr (snd (handleState c t st line))))"
proof (cases "startsWith line ''commit ''")
  case True
  then show ?thesis
    by (simp add: step_def handleState_def split: prod.splits sum.splits)
next
  case nc: False
  show ?thesis
  proof (cases "startsWith line ''diff --git''")
    case True
    then show ?thesis
      using nc
      by (simp add: step_def handleState_def trackFileHeader_diff_line
            split: prod.splits sum.splits)
  next
    case nd: False
    show ?thesis
      using nc nd by (simp add: step_def split: prod.splits sum.splits)
  qed
qed

lemma snd_step: "snd (step c t W st line) = snd (step c t' W st line)"
  unfolding step_cases
  using snd_flushForCommit [of c t W st t'] snd_flushPending [of c t W st t']
    snd_handleState [of c t st line t']
  by (simp split: sum.splits prod.splits)

lemma fitsRun_theme: "fitsRun c t W st lines = fitsRun c t' W st lines"
proof (induction lines arbitrary: st)
  case Nil
  show ?case by simp
next
  case (Cons l lines)
  show ?case
    using snd_step [of c t W st l t'] Cons.IH
    by (simp split: sum.splits)
qed

subsection \<open>Plain states\<close>

lemma plainName_simps [simp]:
  "plainName p None"
  "plainName p (Some s) = plainText p s"
  by (simp_all add: plainName_def)

lemma matchSideB_plain:
  "matchSideB u = Some (Some g) \<Longrightarrow> plainText p u \<Longrightarrow> plainText p g"
  by (auto simp: matchSideB_def Let_def plainText_take plainText_drop split: if_splits)

lemma matchAnd_plain:
  "matchAnd s = Some (Some g) \<Longrightarrow> plainText p s \<Longrightarrow> plainText p g"
  using matchSideB_plain [of "drop 5 s" g p]
  by (auto simp: matchAnd_def plainText_drop split: if_splits)

lemma regex_plain:
  assumes "BINARY_FILES_DIFF_REGEX line = Some (ga, gb)" and "plainText p line"
  shows "plainName p ga" and "plainName p gb"
proof -
  note rc = regex_cases [OF assms(1)]
  from rc consider k where "ga = Some (take k (drop 2 (drop 13 line)))"
      "matchAnd (drop k (drop 2 (drop 13 line))) = Some gb"
    | "ga = None" "matchAnd (drop 9 (drop 13 line)) = Some gb"
    by blast
  then show "plainName p ga"
  proof cases
    case 1
    then show ?thesis
      using assms(2) by (simp add: plainText_take plainText_drop)
  next
    case 2
    then show ?thesis by simp
  qed
  from rc consider k where "matchAnd (drop k (drop 2 (drop 13 line))) = Some gb"
    | "matchAnd (drop 9 (drop 13 line)) = Some gb"
    by blast
  then show "plainName p gb"
  proof cases
    case 1
    show ?thesis
    proof (cases gb)
      case None
      then show ?thesis by simp
    next
      case (Some g)
      have "plainText p (drop k (drop 2 (drop 13 line)))"
        using assms(2) by (intro plainText_drop)
      from matchAnd_plain [OF 1 [unfolded Some] this] Some show ?thesis by simp
    qed
  next
    case 2
    show ?thesis
    proof (cases gb)
      case None
      then show ?thesis by simp
    next
      case (Some g)
      have "plainText p (drop 9 (drop 13 line))"
        using assms(2) by (intro plainText_drop)
      from matchAnd_plain [OF 2 [unfolded Some] this] Some show ?thesis by simp
    qed
  qed
qed

lemma plainState_trackFileHeader:
  assumes "plainState p st" and "plainText p line"
  shows "plainState p (trackFileHeader st line)"
proof (cases "BINARY_FILES_DIFF_REGEX line")
  case None
  then show ?thesis
    using assms by (simp add: trackFileHeader_def plainState_def plainText_sliceFrom)
next
  case (Some g)
  obtain ga gb where g: "g = (ga, gb)" by (cases g)
  from regex_plain [OF Some [unfolded g] assms(2)] Some g assms show ?thesis
    by (simp add: trackFileHeader_def plainState_def plainText_sliceFrom)
qed

lemma plainState_handleState:
  assumes "plainState p st" and "plainText p line"
  shows "plainState p (snd (handleState c t st line))"
proof (cases "state st")
  case Commit
  then show ?thesis using assms(1) by (simp add: handleState_def)
next
  case Diff
  then show ?thesis
    using plainState_trackFileHeader [OF assms] by (simp add: handleState_def)
next
  case Hunk
  then show ?thesis
    using assms by (simp add: handleState_def plainState_def)
qed

lemma plainState_flushPending:
  assumes "plainState p st" and "snd (flushPending c t W st) = Inr st'"
  shows "plainState p st'"
proof -
  have "flushPending c t W st = (fst (flushPending c t W st), Inr st')"
    using assms(2) by (simp add: prod_eq_iff)
  from flushPending_state [OF this] assms(1) show ?thesis
    by (simp add: plainState_def)
qed

lemma plainState_flushForCommit:
  assumes "plainState p st" and "snd (flushForCommit c t W st) = Inr st'"
  shows "plainState p st'"
proof -
  have "flushForCommit c t W st = (fst (flushForCommit c t W st), Inr st')"
    using assms(2) by (simp add: prod_eq_iff)
  from flushForCommit_state [OF this] assms(1) show ?thesis
    by (simp add: plainState_def)
qed

lemma plainState_step:
  assumes "plainState p st" and "plainText p line" and "snd (step c t W st line) = Inr st'"
  shows "plainState p st'"
proof -
  have a: "plainState p (x\<lparr>state := Commit\<rparr>)"
      "plainState p (x\<lparr>state := Diff, fileNameA := Some [], fileNameB := Some []\<rparr>)"
      "plainState p (x\<lparr>hunkHeaderLine := line, startA := a, startB := b, state := Hunk\<rparr>)"
    if "plainState p x" for x a b
    using that assms(2) by (simp_all add: plainState_def)
  show ?thesis
    using assms(3) unfolding step_cases
    by (auto simp: a plainState_flushPending [OF assms(1)] plainState_flushForCommit [OF assms(1)]
          plainState_handleState [OF assms(1,2)] split: if_splits sum.splits prod.splits)
qed

lemma plainState_initial: "plainState p initialState"
  by (simp add: plainState_def initialState_def)

lemma widen_same:
  "list_all2 (\<lambda>l l'. w l = int (length l')) xs ys \<Longrightarrow> list_all2 (sameWidth w c t) xs ys"
  by (erule list_all2_mono) simp

lemma same_pendingHunk:
  assumes "widthMeasure w p" and "themeKeepsWidth w t" and "wrapperPlain p c W"
    and "plainState p st"
  shows "list_all2 (sameWidth w c t) (pendingHunk c t W st) (pendingHunk c plainTheme W st)"
  using assms(4)
  by (intro widen_same same_hunk [OF assms(1-3)]) (simp_all add: plainState_def)

lemma same_flushPending:
  assumes "widthMeasure w p" and "themeKeepsWidth w t" and "wrapperPlain p c W"
    and "plainState p st"
  shows "list_all2 (sameWidth w c t) (fst (flushPending c t W st))
           (fst (flushPending c plainTheme W st))"
proof (cases "state st")
  case Commit
  then show ?thesis by (simp add: flushPending_Commit)
next
  case Diff
  show ?thesis
    using same_banner [OF assms(1,2), of "fileNameA st" "fileNameB st" c] assms(4)
    by (simp add: flushPending_Diff [OF Diff] plainState_def)
next
  case Hunk
  show ?thesis
    using same_pendingHunk [OF assms] by (simp add: flushPending_Hunk [OF Hunk])
qed

lemma same_flushForCommit:
  assumes "widthMeasure w p" and "themeKeepsWidth w t" and "wrapperPlain p c W"
    and "plainState p st"
  shows "list_all2 (sameWidth w c t) (fst (flushForCommit c t W st))
           (fst (flushForCommit c plainTheme W st))"
proof (cases "state st")
  case Commit
  then show ?thesis by (simp add: flushForCommit_def)
next
  case Diff
  have "flushForCommit c t W st = flushPending c t W st" for t
    using Diff by (simp add: flushForCommit_def flushPending_def)
  then show ?thesis
    using same_flushPending [OF assms] by simp
next
  case Hunk
  show ?thesis
    using same_pendingHunk [OF assms] same_separator [OF assms(1,2), of c]
    by (simp add: flushForCommit_Hunk [OF Hunk] list_all2_appendI)
qed

lemma same_handleState:
  assumes "widthMeasure w p" and "themeKeepsWidth w t" and "plainText p line"
  shows "list_all2 (sameWidth w c t) (fst (handleState c t st line))
           (fst (handleState c plainTheme st line))"
  using same_commit_line [OF assms, of c]
  by (cases "state st") (simp_all add: handleState_def)

lemma same_step:
  assumes "widthMeasure w p" and "themeKeepsWidth w t" and "wrapperPlain p c W"
    and "plainState p st" and "plainText p line"
  shows "list_all2 (sameWidth w c t) (fst (step c t W st line)) (fst (step c plainTheme W st line))"
proof -
  note fc = same_flushForCommit [OF assms(1-4)]
  note fp = same_flushPending [OF assms(1-4)]
  note hs = same_handleState [OF assms(1,2,5), of c st]
  note cl = same_commit_line [OF assms(1,2,5), of c]
  note sc = snd_flushForCommit [of c t W st plainTheme]
  note sp = snd_flushPending [of c t W st plainTheme]
  show ?thesis
  proof (cases "startsWith line ''commit ''")
    case True
    show ?thesis
    proof (cases "snd (flushForCommit c plainTheme W st)")
      case (Inl e)
      with True fc sc show ?thesis by (simp add: step_cases)
    next
      case (Inr st')
      with True fc sc cl show ?thesis by (simp add: step_cases list_all2_appendI)
    qed
  next
    case nc: False
    show ?thesis
    proof (cases "startsWith line ''diff --git''")
      case True
      with nc fp sp show ?thesis by (simp add: step_cases split: sum.splits)
    next
      case nd: False
      show ?thesis
      proof (cases "startsWith line ''@@''")
        case True
        with nc nd fp sp show ?thesis by (simp add: step_cases split: sum.splits prod.splits)
      next
        case False
        with nc nd hs show ?thesis by (simp add: step_cases)
      qed
    qed
  qed
qed

lemma same_feed:
  assumes "widthMeasure w p" and "themeKeepsWidth w t" and "wrapperPlain p c W"
  shows "plainState p st \<Longrightarrow> list_all (plainText p) lines \<Longrightarrow>
    list_all2 (sameWidth w c t) (fst (feed c t W st lines)) (fst (feed c plainTheme W st lines))
    \<and> snd (feed c t W st lines) = snd (feed c plainTheme W st lines)
    \<and> (\<forall>st'. snd (feed c t W st lines) = Inr st' \<longrightarrow> plainState p st')"
proof (induction lines arbitrary: st)
  case Nil
  then show ?case by simp
next
  case (Cons l lines)
  have l: "plainText p l" and ls: "list_all (plainText p) lines"
    using Cons.prems(2) by simp_all
  obtain ys r where s: "step c t W st l = (ys, r)"
    by (cases "step c t W st l") auto
  obtain ys' r' where s': "step c plainTheme W st l = (ys', r')"
    by (cases "step c plainTheme W st l") auto
  have r: "r' = r"
    using snd_step [of c t W st l plainTheme] s s' by simp
  have ys: "list_all2 (sameWidth w c t) ys ys'"
    using same_step [OF assms Cons.prems(1) l] s s' by simp
  show ?case
  proof (cases r)
    case (Inl e)
    with s s' r ys show ?thesis by simp
  next
    case (Inr st1)
    have p1: "plainState p st1"
      using plainState_step [OF Cons.prems(1) l, of c t W st1] s Inr by simp
    note ih = Cons.IH [OF p1 ls]
    obtain zs q where f: "feed c t W st1 lines = (zs, q)"
      by (cases "feed c t W st1 lines") auto
    obtain zs' q' where f': "feed c plainTheme W st1 lines = (zs', q')"
      by (cases "feed c plainTheme W st1 lines") auto
    from ih f f' have "list_all2 (sameWidth w c t) zs zs'" "q' = q"
        "\<forall>st'. q = Inr st' \<longrightarrow> plainState p st'"
      by simp_all
    with s s' r ys Inr f f' show ?thesis
      by (simp add: list_all2_appendI)
  qed
qed

lemma same_stream:
  assumes "widthMeasure w p" and "themeKeepsWidth w t" and "wrapperPlain p c W"
    and "list_all (plainText p) lines"
  shows "list_all2 (sameWidth w c t) (fst (iterSideBySideDiff c t W lines))
           (fst (iterSideBySideDiff c plainTheme W lines))"
proof -
  note sf = same_feed [OF assms(1-3) plainState_initial assms(4)]
  obtain ys r where f: "feed c t W initialState lines = (ys, r)"
    by (cases "feed c t W initialState lines") auto
  obtain ys' where f': "feed c plainTheme W initialState lines = (ys', r)"
    using sf f by (cases "feed c plainTheme W initialState lines") auto
  have ys: "list_all2 (sameWidth w c t) ys ys'"
    using sf f f' by simp
  show ?thesis
  proof (cases r)
    case (Inl e)
    with f f' ys show ?thesis by (simp add: iterSideBySideDiff_def)
  next
    case (Inr st)
    have "plainState p st"
      using sf f Inr by simp
    from same_flushPending [OF assms(1-3) this] ys f f' Inr show ?thesis
      by (simp add: iterSideBySideDiff_feed list_all2_appendI)
  qed
qed

lemma list_all2_setD:
  "list_all2 R xs ys \<Longrightarrow> x \<in> set xs \<Longrightarrow> \<exists>y \<in> set ys. R x y"
  by (induction rule: list_all2_induct) auto

subsection \<open>The width measure of the concrete runs\<close>

lemma isParam_not [simp]:
  "\<not> isParam ESC" "\<not> isParam CHR ''m''" "ESC \<noteq> CHR ''[''" "ESC \<noteq> CHR ''m''"
  "CHR ''['' \<noteq> ESC" "CHR ''m'' \<noteq> ESC"
  by (simp_all add: isParam_def isDigit_def ESC_def)

lemma visible_params:
  "list_all isParam code \<Longrightarrow> 2 \<le> k \<Longrightarrow> visible k (code @ CHR ''m'' # r) = visible 0 r"
proof (induction code arbitrary: k)
  case Nil
  then show ?case by simp
next
  case (Cons x code)
  then have "x \<noteq> ESC" by auto
  with Cons show ?case by simp
qed

lemma visible_sgr:
  "list_all isParam code \<Longrightarrow>
   visible k (ESC # CHR ''['' # code @ CHR ''m'' # r) = k + visible 0 r"
  by (simp add: visible_params)

lemma visible_append_sgr:
  assumes "list_all isParam code"
  shows "visible k (s @ ESC # CHR ''['' # code @ CHR ''m'' # r) = visible k s + visible 0 r"
proof (induction s arbitrary: k)
  case Nil
  show ?case
    using visible_sgr [OF assms, of k r] by simp
next
  case (Cons x s)
  show ?case
    by (simp add: Cons.IH)
qed

lemma keepsWidth_sgr:
  assumes "list_all isParam on" and "list_all isParam off"
  shows "keepsWidth visibleWidth (sgr on off)"
proof -
  have "visible 0 (sgr on off s @ r) = visible 0 s + visible 0 r" for s r
  proof -
    have "visible 0 (sgr on off s @ r)
            = visible 0 (ESC # CHR ''['' # on @ CHR ''m''
                # (s @ ESC # CHR ''['' # off @ CHR ''m'' # r))"
      by (simp add: sgr_def)
    also have "\<dots> = 0 + visible 0 (s @ ESC # CHR ''['' # off @ CHR ''m'' # r)"
      by (rule visible_sgr [OF assms(1)])
    also have "visible 0 (s @ ESC # CHR ''['' # off @ CHR ''m'' # r) = visible 0 s + visible 0 r"
      by (rule visible_append_sgr [OF assms(2)])
    finally show ?thesis by simp
  qed
  then show ?thesis
    by (simp add: keepsWidth_def visibleWidth_def)
qed

lemma widthMeasure_visible: "widthMeasure visibleWidth notEscape"
  by (simp add: widthMeasure_def visibleWidth_def notEscape_def ESC_def DASH_def SQUARE_def)

lemma themeKeepsWidth_ansi: "themeKeepsWidth visibleWidth ansiTheme"
  by (simp add: themeKeepsWidth_def ansiTheme_def keepsWidth_sgr isParam_def isDigit_def)

lemma wrapperPlain_chunkWrap: "wrapperPlain p c chunkWrap"
  by (auto simp: wrapperPlain_def chunkWrap_def Let_def plainText_take plainText_drop)

lemma segmentsFit_chunkWrap: "segmentsFit c chunkWrap"
  by (auto simp: segmentsFit_def chunkWrap_def Let_def)

text \<open>
  Claim C3, amended. Take a width measure, a theme whose colours add escape sequences
  only, a wrapper that makes plain segments of plain text, and input lines of plain
  characters (one column each) whose line numbers stay in the range where the source's
  numbers are exact. Then every line of the run, the body line of a rename banner
  apart, is at least \<open>2 * floor(SCREEN_WIDTH / 2)\<close> columns wide once its escape
  sequences are left out: every line is padded to the width, and content that does not
  fit is not shortened. Every such line is exactly \<open>SCREEN_WIDTH\<close> columns wide when
  everything fits: the Config puts two halves of \<open>SCREEN_WIDTH / 2\<close> columns side by
  side with room for the line number and the prefix, the wrapper respects the width,
  and every input line fits in the state in which the run meets it.
\<close>

theorem emitted_lines_width:
  assumes "widthMeasure w p" and "themeKeepsWidth w t" and "wrapperPlain p c W"
    and "list_all (plainText p) lines" and "safeInput lines"
  shows "(\<forall>l \<in> set (fst (iterSideBySideDiff c t W lines)).
            2 * (SCREEN_WIDTH c div 2) \<le> w l \<or> isRenameBody c t l)
       \<and> (fitConfig c \<and> segmentsFit c W \<and> fitsRun c t W initialState lines \<longrightarrow>
            (\<forall>l \<in> set (fst (iterSideBySideDiff c t W lines)).
               w l = SCREEN_WIDTH c \<or> isRenameBody c t l))"
proof (intro conjI impI ballI)
  fix l assume "l \<in> set (fst (iterSideBySideDiff c t W lines))"
  then obtain l' where l': "l' \<in> set (fst (iterSideBySideDiff c plainTheme W lines))"
      "sameWidth w c t l l'"
    using list_all2_setD [OF same_stream [OF assms(1-4)]] by blast
  from width_stream_lower [of c W lines] l'(1)
  have "2 * (SCREEN_WIDTH c div 2) \<le> int (length l')" by blast
  with l'(2) show "2 * (SCREEN_WIDTH c div 2) \<le> w l \<or> isRenameBody c t l"
    by auto
next
  fix l
  assume fit: "fitConfig c \<and> segmentsFit c W \<and> fitsRun c t W initialState lines"
    and "l \<in> set (fst (iterSideBySideDiff c t W lines))"
  then obtain l' where l': "l' \<in> set (fst (iterSideBySideDiff c plainTheme W lines))"
      "sameWidth w c t l l'"
    using list_all2_setD [OF same_stream [OF assms(1-4)]] by blast
  have "fitsRun c plainTheme W initialState lines"
    using fit fitsRun_theme [of c t W initialState lines plainTheme] by simp
  with fit exact_stream [of c W lines] l'(1)
  have "int (length l') = SCREEN_WIDTH c" by blast
  with l'(2) show "w l = SCREEN_WIDTH c \<or> isRenameBody c t l"
    by auto
qed

theorem emitted_lines_width_witness:
  "widthMeasure visibleWidth notEscape
   \<and> themeKeepsWidth visibleWidth ansiTheme
   \<and> wrapperPlain notEscape config20w chunkWrap
   \<and> list_all (plainText notEscape)
        [''commit 1f'', ''Author: me'', ''    Fix the parser'', ''diff --git a/x b/x'',
         ''--- a/x'', ''+++ b/x'', ''@@ -1 +1 @@'', ''-a'', ''+b'',
         '' a long context line that is wrapped'']
   \<and> safeInput
        [''commit 1f'', ''Author: me'', ''    Fix the parser'', ''diff --git a/x b/x'',
         ''--- a/x'', ''+++ b/x'', ''@@ -1 +1 @@'', ''-a'', ''+b'',
         '' a long context line that is wrapped'']
   \<and> fitConfig config20w
   \<and> segmentsFit config20w chunkWrap
   \<and> fitsRun config20w ansiTheme chunkWrap initialState
        [''commit 1f'', ''Author: me'', ''    Fix the parser'', ''diff --git a/x b/x'',
         ''--- a/x'', ''+++ b/x'', ''@@ -1 +1 @@'', ''-a'', ''+b'',
         '' a long context line that is wrapped'']
   \<and> list_all (\<lambda>l. visibleWidth l = SCREEN_WIDTH config20w \<or> isRenameBody config20w ansiTheme l)
        (fst (iterSideBySideDiff config20w ansiTheme chunkWrap
           [''commit 1f'', ''Author: me'', ''    Fix the parser'', ''diff --git a/x b/x'',
            ''--- a/x'', ''+++ b/x'', ''@@ -1 +1 @@'', ''-a'', ''+b'',
            '' a long context line that is wrapped'']))
   \<and> map visibleWidth
        (fst (iterSideBySideDiff config20w ansiTheme chunkWrap
           [''commit 1f'', ''Author: me'', ''    Fix the parser'', ''diff --git a/x b/x'',
            ''--- a/x'', ''+++ b/x'', ''@@ -1 +1 @@'', ''-a'', ''+b'',
            '' a long context line that is wrapped'']))
      = [20, 20, 20, 20, 20, 20, 20, 20, 20, 20, 20, 20, 20, 20, 20]
   \<and> wrapperPlain notEscape config20 noWrap
   \<and> list_all (plainText notEscape) [''    Fix the parser of hunk headers'']
   \<and> list_all (\<lambda>l. 2 * (SCREEN_WIDTH config20 div 2) \<le> visibleWidth l
                    \<or> isRenameBody config20 ansiTheme l)
        (fst (iterSideBySideDiff config20 ansiTheme noWrap
           [''    Fix the parser of hunk headers'']))"
proof -
  let ?lines = "[''commit 1f'', ''Author: me'', ''    Fix the parser'', ''diff --git a/x b/x'',
         ''--- a/x'', ''+++ b/x'', ''@@ -1 +1 @@'', ''-a'', ''+b'',
         '' a long context line that is wrapped'']"
  have m: "widthMeasure visibleWidth notEscape"
    by (rule widthMeasure_visible)
  have k: "themeKeepsWidth visibleWidth ansiTheme"
    by (rule themeKeepsWidth_ansi)
  have wp: "wrapperPlain notEscape config20w chunkWrap"
    by (rule wrapperPlain_chunkWrap)
  have wn: "wrapperPlain notEscape config20 noWrap"
    by (simp add: wrapperPlain_def config20_def)
  have pl: "list_all (plainText notEscape) ?lines"
    by code_simp
  have pl1: "list_all (plainText notEscape) [''    Fix the parser of hunk headers'']"
    by code_simp
  have sf: "safeInput ?lines" "safeInput [''    Fix the parser of hunk headers'']"
    by code_simp+
  have c: "fitConfig config20w"
    by (simp add: fitConfig_def config20w_def)
  have s: "segmentsFit config20w chunkWrap"
    by (rule segmentsFit_chunkWrap)
  have r: "fitsRun config20w ansiTheme chunkWrap initialState ?lines"
    by code_simp
  have e: "map visibleWidth (fst (iterSideBySideDiff config20w ansiTheme chunkWrap ?lines))
      = [20, 20, 20, 20, 20, 20, 20, 20, 20, 20, 20, 20, 20, 20, 20]"
    by code_simp
  have x: "list_all (\<lambda>l. visibleWidth l = SCREEN_WIDTH config20w
                          \<or> isRenameBody config20w ansiTheme l)
        (fst (iterSideBySideDiff config20w ansiTheme chunkWrap ?lines))"
    using emitted_lines_width [OF m k wp pl sf(1), THEN conjunct2, THEN mp, OF conjI [OF c conjI [OF s r]]]
    by (simp only: list_all_iff)
  have y: "list_all (\<lambda>l. 2 * (SCREEN_WIDTH config20 div 2) \<le> visibleWidth l
                    \<or> isRenameBody config20 ansiTheme l)
        (fst (iterSideBySideDiff config20 ansiTheme noWrap
           [''    Fix the parser of hunk headers'']))"
    using emitted_lines_width [OF m k wn pl1 sf(2), THEN conjunct1]
    by (simp only: list_all_iff)
  show ?thesis
    using m k wp pl sf(1) c s r x e wn pl1 y by blast
qed

text \<open>
  Claim C3 as stated fails: with \<open>SCREEN_WIDTH = 20\<close>, a line of 34 characters that
  is handled in the Commit state is emitted as it is, 34 columns wide, under the plain
  theme and under the theme with escape sequences.
\<close>

theorem emitted_lines_screen_wide_counterexample:
  "validConfig config20
   \<and> SCREEN_WIDTH config20 = 20
   \<and> iterSideBySideDiff config20 plainTheme noWrap [''    Fix the parser of hunk headers'']
       = ([''    Fix the parser of hunk headers''], None)
   \<and> visibleWidth ''    Fix the parser of hunk headers'' = 34
   \<and> map visibleWidth
        (fst (iterSideBySideDiff config20 ansiTheme noWrap
           [''    Fix the parser of hunk headers''])) = [34]"
  by code_simp

text \<open>
  The line that the property leaves out: with \<open>SCREEN_WIDTH = 40\<close>, the body line of
  the banner of a rename takes 30 columns under the theme with escape sequences,
  because the ten code units that the colour added to the label count as padding; under
  the plain theme it has 40 characters.
\<close>

lemma rename_label_padded_after_colouring:
  "map visibleWidth
     (fst (iterSideBySideDiff (config20\<lparr>SCREEN_WIDTH := 40\<rparr>) ansiTheme noWrap
        [''diff --git a/old b/new'', ''rename from old'', ''rename to new'']))
     = [40, 30, 40]
   \<and> map length
     (fst (iterSideBySideDiff (config20\<lparr>SCREEN_WIDTH := 40\<rparr>) plainTheme noWrap
        [''diff --git a/old b/new'', ''rename from old'', ''rename to new'']))
     = [40, 40, 40]"
  by code_simp

end
